theory Spec2Isabelle
  imports Main
begin

section \<open>The host spreadsheet service\<close>

text \<open>
  FormUtils.js is a Google Apps Script library: every function is a sequence of calls
  into the Sheets service (\<^verbatim>\<open>Sheet\<close>, \<^verbatim>\<open>Range\<close>), the lock service and the
  \<^verbatim>\<open>Utilities\<close> digest functions. The service is not part of the repository, so this
  section models the documented behaviour of exactly the methods the library calls.

  What is taken from the documentation of the service: a call fails when its
  coordinates lie outside the grid of the sheet; \<^verbatim>\<open>deleteRow\<close> moreover refuses to
  delete the last row of a sheet that is not frozen (``it is not possible to delete all
  non-frozen rows''), and deleting a frozen row leaves one frozen row fewer; an inserted
  row is blank and carries no rule; a checkbox cell holds a boolean, so that it counts as
  content for
  \<^verbatim>\<open>getLastRow()\<close> and \<^verbatim>\<open>isBlank()\<close> even when unticked (the library's
  \<^verbatim>\<open>isRangeEmpty\<close> says so: ``Checkbox cells (which are always filled)'').

  A cell holds a value and an optional data validation rule. \<^verbatim>\<open>getValues()\<close> returns
  strings, booleans, numbers and dates; the empty cell is the empty string. The library
  only ever tests a value with \<^verbatim>\<open>!== ""\<close>, renders it through \<^verbatim>\<open>Array.join\<close>
  and searches for a string with \<^verbatim>\<open>includes\<close>, so a number or a date is kept as
  \<open>Other s\<close>, with \<open>s\<close> its JavaScript string rendering: it is never the empty cell
  and never equal to a string.
\<close>

datatype cellval = Str string | Bool bool | Other string

datatype criteria = CHECKBOX | OTHER_CRITERIA

record cell =
  cval :: cellval
  dval :: "criteria option"

definition blankCell :: cell where
  "blankCell = \<lparr>cval = Str [], dval = None\<rparr>"

text \<open>
  A sheet is a grid of allocated rows (\<^verbatim>\<open>getMaxRows()\<close> of them, each
  \<^verbatim>\<open>getMaxColumns()\<close> wide) and a number of frozen rows. Rows and columns are
  numbered from 1.
\<close>

record sheet =
  grid :: "cell list list"
  ncols :: nat
  frozen :: nat

definition hasContent :: "cell \<Rightarrow> bool" where
  "hasContent c = (cval c \<noteq> Str [])"

definition rowHasContent :: "cell list \<Rightarrow> bool" where
  "rowHasContent r = list_ex hasContent r"

definition getMaxRows :: "sheet \<Rightarrow> nat" where
  "getMaxRows s = length (grid s)"

definition getMaxColumns :: "sheet \<Rightarrow> nat" where
  "getMaxColumns s = ncols s"

definition getFrozenRows :: "sheet \<Rightarrow> nat" where
  "getFrozenRows s = frozen s"

text \<open>\<^verbatim>\<open>getLastRow()\<close>: the position of the last row that has content (0 when none has).\<close>

definition getLastRow :: "sheet \<Rightarrow> nat" where
  "getLastRow s = length (dropWhile (\<lambda>r. \<not> rowHasContent r) (rev (grid s)))"

text \<open>\<^verbatim>\<open>getLastColumn()\<close>: the position of the last column that has content.\<close>

definition rowLastColumn :: "cell list \<Rightarrow> nat" where
  "rowLastColumn r = length (dropWhile (\<lambda>c. \<not> hasContent c) (rev r))"

definition getLastColumn :: "sheet \<Rightarrow> nat" where
  "getLastColumn s = foldr (\<lambda>r m. max (rowLastColumn r) m) (grid s) 0"

text \<open>
  The library only builds ranges of one row (\<^verbatim>\<open>getRange(row, col, 1, n)\<close>) and, for
  the digest column and the placement scan, ranges of one column. A row range is a
  value: the sheet's handle and coordinates, not a live reference to cells.
\<close>

record range =
  rsheet :: string
  rrow :: nat
  rcol :: nat
  rncols :: nat

definition getRange :: "string \<Rightarrow> nat \<Rightarrow> nat \<Rightarrow> nat \<Rightarrow> range" where
  "getRange sh row col n = \<lparr>rsheet = sh, rrow = row, rcol = col, rncols = n\<rparr>"

definition validRange :: "sheet \<Rightarrow> range \<Rightarrow> bool" where
  "validRange s r =
     (1 \<le> rrow r \<and> rrow r \<le> length (grid s) \<and> 1 \<le> rcol r \<and> 1 \<le> rncols r \<and>
      rcol r + rncols r \<le> Suc (ncols s))"

definition rangeCells :: "sheet \<Rightarrow> range \<Rightarrow> cell list" where
  "rangeCells s r = take (rncols r) (drop (rcol r - 1) (grid s ! (rrow r - 1)))"

definition validColumn :: "sheet \<Rightarrow> nat \<Rightarrow> nat \<Rightarrow> nat \<Rightarrow> bool" where
  "validColumn s row col n =
     (1 \<le> row \<and> 1 \<le> n \<and> row + n \<le> Suc (length (grid s)) \<and> 1 \<le> col \<and> col \<le> ncols s)"

definition columnCells :: "sheet \<Rightarrow> nat \<Rightarrow> nat \<Rightarrow> nat \<Rightarrow> cell list" where
  "columnCells s row col n = map (\<lambda>r. r ! (col - 1)) (take n (drop (row - 1) (grid s)))"

subsection \<open>The world: sheets, the script lock and the calls made so far\<close>

datatype event =
    EvWaitLock
  | EvReleaseLock
  | EvGetValues range
  | EvGetColumn string nat nat nat
  | EvIsBlank range
  | EvGetDataValidations range
  | EvInsertRowBefore string nat
  | EvInsertRowAfter string nat
  | EvCopyTo range range
  | EvSetValue string nat nat cellval
  | EvDeleteRow string nat

text \<open>
  \<open>lockHeld\<close>: this execution holds the script lock. \<open>lockBusy\<close>: another execution
  holds it and keeps it, so that \<^verbatim>\<open>waitLock\<close> times out. \<open>trace\<close> records every
  call into the service that reads or writes cells or touches the lock, in order.
\<close>

record world =
  sheets :: "string \<Rightarrow> sheet"
  lockHeld :: bool
  lockBusy :: bool
  trace :: "event list"

text \<open>What a \<^verbatim>\<open>throw\<close> carries: the library's own string, or a failure of the host.\<close>

datatype error =
    DigestRequired
  | LockTimeout
  | RangeError
  | DeleteRefused
  | CallbackError string

type_synonym 'a io = "world \<Rightarrow> (error + 'a) \<times> world"

definition ioreturn :: "'a \<Rightarrow> 'a io" where
  "ioreturn x w = (Inr x, w)"

definition iothrow :: "error \<Rightarrow> 'a io" where
  "iothrow e w = (Inl e, w)"

definition iobind :: "'a io \<Rightarrow> ('a \<Rightarrow> 'b io) \<Rightarrow> 'b io" where
  "iobind m f w = (case m w of (Inl e, w') \<Rightarrow> (Inl e, w') | (Inr x, w') \<Rightarrow> f x w')"

definition logEvent :: "event \<Rightarrow> world \<Rightarrow> world" where
  "logEvent ev w = w\<lparr>trace := trace w @ [ev]\<rparr>"

definition setSheet :: "string \<Rightarrow> sheet \<Rightarrow> world \<Rightarrow> world" where
  "setSheet sh s w = w\<lparr>sheets := (sheets w)(sh := s)\<rparr>"

subsection \<open>The lock service\<close>

definition waitLock :: "unit io" where
  "waitLock w =
     (let w1 = logEvent EvWaitLock w
      in if lockBusy w1 then (Inl LockTimeout, w1) else (Inr (), w1\<lparr>lockHeld := True\<rparr>))"

definition releaseLock :: "unit io" where
  "releaseLock w = (Inr (), (logEvent EvReleaseLock w)\<lparr>lockHeld := False\<rparr>)"

subsection \<open>Reading ranges\<close>

definition getValues :: "range \<Rightarrow> cellval list io" where
  "getValues r w =
     (let w1 = logEvent (EvGetValues r) w; s = sheets w1 (rsheet r)
      in if validRange s r then (Inr (map cval (rangeCells s r)), w1) else (Inl RangeError, w1))"

definition getDataValidations :: "range \<Rightarrow> criteria option list io" where
  "getDataValidations r w =
     (let w1 = logEvent (EvGetDataValidations r) w; s = sheets w1 (rsheet r)
      in if validRange s r then (Inr (map dval (rangeCells s r)), w1) else (Inl RangeError, w1))"

definition isBlank :: "range \<Rightarrow> bool io" where
  "isBlank r w =
     (let w1 = logEvent (EvIsBlank r) w; s = sheets w1 (rsheet r)
      in if validRange s r then (Inr (\<not> rowHasContent (rangeCells s r)), w1)
         else (Inl RangeError, w1))"

text \<open>\<^verbatim>\<open>sheet.getRange(row, col, n, 1).getValues().flat()\<close>, the values of one column.\<close>

definition getColumnValues :: "string \<Rightarrow> nat \<Rightarrow> nat \<Rightarrow> nat \<Rightarrow> cellval list io" where
  "getColumnValues sh row col n w =
     (let w1 = logEvent (EvGetColumn sh row col n) w; s = sheets w1 sh
      in if validColumn s row col n then (Inr (map cval (columnCells s row col n)), w1)
         else (Inl RangeError, w1))"

subsection \<open>Writing\<close>

definition blankRow :: "sheet \<Rightarrow> cell list" where
  "blankRow s = replicate (ncols s) blankCell"

definition insertRowBefore :: "string \<Rightarrow> nat \<Rightarrow> unit io" where
  "insertRowBefore sh pos w =
     (let w1 = logEvent (EvInsertRowBefore sh pos) w; s = sheets w1 sh
      in if 1 \<le> pos \<and> pos \<le> length (grid s)
         then (Inr (), setSheet sh
                 (s\<lparr>grid := take (pos - 1) (grid s) @ blankRow s # drop (pos - 1) (grid s)\<rparr>) w1)
         else (Inl RangeError, w1))"

definition insertRowAfter :: "string \<Rightarrow> nat \<Rightarrow> unit io" where
  "insertRowAfter sh pos w =
     (let w1 = logEvent (EvInsertRowAfter sh pos) w; s = sheets w1 sh
      in if 1 \<le> pos \<and> pos \<le> length (grid s)
         then (Inr (), setSheet sh
                 (s\<lparr>grid := take pos (grid s) @ blankRow s # drop pos (grid s)\<rparr>) w1)
         else (Inl RangeError, w1))"

text \<open>
  \<^verbatim>\<open>sheet.deleteRow(pos)\<close>. The rows below move up. The service refuses
  (\<open>DeleteRefused\<close>) when the row is the only one of the sheet that is not frozen;
  the sheet is then left as it was.
\<close>

definition lastUnfrozenRow :: "sheet \<Rightarrow> nat \<Rightarrow> bool" where
  "lastUnfrozenRow s pos = (frozen s < pos \<and> length (grid s) \<le> frozen s + 1)"

definition withoutRow :: "sheet \<Rightarrow> nat \<Rightarrow> sheet" where
  "withoutRow s pos =
     (let s' = s\<lparr>grid := take (pos - 1) (grid s) @ drop pos (grid s)\<rparr>
      in if pos \<le> frozen s then s'\<lparr>frozen := frozen s - 1\<rparr> else s')"

definition deleteRow :: "string \<Rightarrow> nat \<Rightarrow> unit io" where
  "deleteRow sh pos w =
     (let w1 = logEvent (EvDeleteRow sh pos) w; s = sheets w1 sh
      in if 1 \<le> pos \<and> pos \<le> length (grid s)
         then (if lastUnfrozenRow s pos then (Inl DeleteRefused, w1)
               else (Inr (), setSheet sh (withoutRow s pos) w1))
         else (Inl RangeError, w1))"

text \<open>Overwrite the values of the cells of a row from column \<open>col\<close> on; rules stay.\<close>

fun pasteValues :: "cellval list \<Rightarrow> cell list \<Rightarrow> cell list" where
  "pasteValues [] cs = cs"
| "pasteValues (v # vs) [] = []"
| "pasteValues (v # vs) (c # cs) = c\<lparr>cval := v\<rparr> # pasteValues vs cs"

definition writeRow :: "sheet \<Rightarrow> nat \<Rightarrow> nat \<Rightarrow> cellval list \<Rightarrow> sheet" where
  "writeRow s row col vs =
     s\<lparr>grid := (grid s)[row - 1 :=
          take (col - 1) (grid s ! (row - 1)) @ pasteValues vs (drop (col - 1) (grid s ! (row - 1)))]\<rparr>"

text \<open>
  \<^verbatim>\<open>source.copyTo(destination, {contentsOnly:true})\<close>: the values of the source row
  are written from the first cell of the destination on; formats and rules are not
  copied.
\<close>

definition copyTo :: "range \<Rightarrow> range \<Rightarrow> unit io" where
  "copyTo src dst w =
     (let w1 = logEvent (EvCopyTo src dst) w;
          s = sheets w1 (rsheet src); d = sheets w1 (rsheet dst)
      in if validRange s src \<and> validRange d (dst\<lparr>rncols := rncols src\<rparr>)
         then (Inr (), setSheet (rsheet dst)
                 (writeRow d (rrow dst) (rcol dst) (map cval (rangeCells s src))) w1)
         else (Inl RangeError, w1))"

text \<open>\<^verbatim>\<open>range.getCell(1, k).setValue(v)\<close>.\<close>

definition setValue :: "range \<Rightarrow> nat \<Rightarrow> cellval \<Rightarrow> unit io" where
  "setValue r k v w =
     (let col = rcol r + k - 1;
          w1 = logEvent (EvSetValue (rsheet r) (rrow r) col v) w; s = sheets w1 (rsheet r)
      in if validRange s r \<and> 1 \<le> k \<and> k \<le> rncols r
         then (Inr (), setSheet (rsheet r) (writeRow s (rrow r) col [v]) w1)
         else (Inl RangeError, w1))"

section \<open>FormUtils.js\<close>

subsection \<open>getDigest\<close>

text \<open>
  \<^verbatim>\<open>String(v)\<close> as \<^verbatim>\<open>Array.prototype.join\<close> applies it, and \<^verbatim>\<open>join()\<close> with its
  default separator, the comma.
\<close>

fun js_toString :: "cellval \<Rightarrow> string" where
  "js_toString (Str s) = s"
| "js_toString (Bool True) = ''true''"
| "js_toString (Bool False) = ''false''"
| "js_toString (Other s) = s"

fun js_join :: "string list \<Rightarrow> string" where
  "js_join [] = []"
| "js_join [s] = s"
| "js_join (s # t # ss) = s @ '','' @ js_join (t # ss)"

text \<open>The string handed to the hash: \<^verbatim>\<open>range.getValues()[0].slice(skip).join()\<close>.\<close>

definition digestInput :: "cellval list \<Rightarrow> nat \<Rightarrow> string" where
  "digestInput values skip = js_join (map js_toString (drop skip values))"

text \<open>
  \<open>h\<close> stands for \<^verbatim>\<open>Utilities.base64Encode(Utilities.computeDigest(encoding, _))\<close>,
  a function of the string alone.
\<close>

definition getDigest :: "(string \<Rightarrow> string) \<Rightarrow> range \<Rightarrow> nat \<Rightarrow> string io" where
  "getDigest h r skip =
     iobind (getValues r) (\<lambda>values. ioreturn (h (digestInput values skip)))"

subsection \<open>isRangeEmpty\<close>

text \<open>
  The loop over the cells of the range: a cell with a value that is not a checkbox
  (a rule whose criteria type is \<^verbatim>\<open>CHECKBOX\<close>) makes the range non-empty. Values and
  rules are read from the same range, so the two lists have the same length.
\<close>

fun isRangeEmpty_loop :: "cellval list \<Rightarrow> criteria option list \<Rightarrow> bool" where
  "isRangeEmpty_loop (v # vs) (d # ds) =
     (if v \<noteq> Str [] \<and> \<not> (case d of None \<Rightarrow> False | Some c \<Rightarrow> c = CHECKBOX) then False
      else isRangeEmpty_loop vs ds)"
| "isRangeEmpty_loop vs ds = True"

definition isRangeEmpty :: "range \<Rightarrow> bool \<Rightarrow> bool io" where
  "isRangeEmpty r ignoreCheckbox =
     (if \<not> ignoreCheckbox then isBlank r
      else iobind (getValues r) (\<lambda>values.
           iobind (getDataValidations r) (\<lambda>validations.
           ioreturn (isRangeEmpty_loop values validations))))"

subsection \<open>getFirstEmptyRow\<close>

text \<open>\<^verbatim>\<open>data[i]\<close>: \<^verbatim>\<open>undefined\<close> (here \<open>None\<close>) outside the array.\<close>

definition js_index :: "'a list \<Rightarrow> int \<Rightarrow> 'a option" where
  "js_index xs i = (if 0 \<le> i \<and> nat i < length xs then Some (xs ! nat i) else None)"

text \<open>\<^verbatim>\<open>do{ i--; }while(i>=min && data[i] === "");\<close>\<close>

function scanBack :: "cellval list \<Rightarrow> int \<Rightarrow> int \<Rightarrow> int" where
  "scanBack data mn i =
     (let i' = i - 1
      in if i' \<ge> mn \<and> js_index data i' = Some (Str []) then scanBack data mn i' else i')"
  by pat_completeness auto
termination
  by (relation "measure (\<lambda>(data, mn, i). nat i)") (auto simp: js_index_def split: if_splits)

declare scanBack.simps [simp del]

text \<open>
  \<^verbatim>\<open>do{ i++; }while(i<max && !isRangeEmpty(getRow(i+1), ignoreCheckboxes))\<close>, where
  \<^verbatim>\<open>getRow(num)\<close> is \<^verbatim>\<open>sheet.getRange(num, 1, 1, cols)\<close>.
\<close>

function scanForward :: "string \<Rightarrow> nat \<Rightarrow> int \<Rightarrow> bool \<Rightarrow> int \<Rightarrow> int io" where
  "scanForward sh cols mx ign i w =
     (let i' = i + 1
      in if i' < mx
         then (case isRangeEmpty (getRange sh (nat (i' + 1)) 1 cols) ign w of
                 (Inl e, w') \<Rightarrow> (Inl e, w')
               | (Inr b, w') \<Rightarrow> if \<not> b then scanForward sh cols mx ign i' w' else (Inr i', w'))
         else (Inr i', w))"
  by pat_completeness auto
termination
  by (relation "measure (\<lambda>(sh, cols, mx, ign, i, w). nat (mx - i))") auto

declare scanForward.simps [simp del]

definition ioget :: "(world \<Rightarrow> 'a) \<Rightarrow> 'a io" where
  "ioget f w = (Inr (f w), w)"

text \<open>The last statement of the function: reserve the row found and return its first cell.\<close>

definition reserveRow :: "string \<Rightarrow> int \<Rightarrow> int \<Rightarrow> range io" where
  "reserveRow sh row mx =
     (if row > mx
      then iobind (insertRowAfter sh (nat mx)) (\<lambda>_. ioreturn (getRange sh (nat (mx + 1)) 1 1))
      else iobind (insertRowBefore sh (nat row)) (\<lambda>_. ioreturn (getRange sh (nat row) 1 1)))"

definition getFirstEmptyRow :: "string \<Rightarrow> nat \<Rightarrow> bool \<Rightarrow> range io" where
  "getFirstEmptyRow sh index ignoreCheckboxes =
     (if ignoreCheckboxes
      then iobind (ioget (\<lambda>w. int (getLastRow (sheets w sh)) + 1)) (\<lambda>row.
           iobind (ioget (\<lambda>w. int (getMaxRows (sheets w sh)))) (\<lambda>mx.
           reserveRow sh row mx))
      else iobind (ioget (\<lambda>w. getMaxColumns (sheets w sh))) (\<lambda>cols.
           iobind (ioget (\<lambda>w. int (getFrozenRows (sheets w sh)) + 1)) (\<lambda>mn.
           iobind (ioget (\<lambda>w. getLastRow (sheets w sh))) (\<lambda>mx.
           iobind (getColumnValues sh 1 index mx) (\<lambda>data.
           iobind (scanForward sh cols (int mx) ignoreCheckboxes (scanBack data mn (int mx) - 1))
             (\<lambda>i.
           reserveRow sh (i + 1) (int mx)))))))"

subsection \<open>isDuplicate and addDigest\<close>

definition isDuplicate ::
    "(string \<Rightarrow> string) \<Rightarrow> range \<Rightarrow> string \<Rightarrow> bool \<Rightarrow> nat option \<Rightarrow> nat \<Rightarrow> bool io" where
  "isDuplicate h r sh useDigest lst skip =
     iobind (case lst of Some l \<Rightarrow> ioreturn l | None \<Rightarrow> ioget (\<lambda>w. getLastRow (sheets w sh)))
       (\<lambda>last.
     if last = 0 then ioreturn False
     else if useDigest
     then iobind (getDigest h r skip) (\<lambda>digest.
          iobind (getColumnValues sh 1 (rncols r + 1) last) (\<lambda>data.
          ioreturn (Str digest \<in> set data)))
     else iothrow DigestRequired)"

definition addDigest :: "(string \<Rightarrow> string) \<Rightarrow> range \<Rightarrow> nat \<Rightarrow> string option \<Rightarrow> range io" where
  "addDigest h r skip dg =
     iobind (case dg of None \<Rightarrow> getDigest h r skip | Some d \<Rightarrow> ioreturn d) (\<lambda>digest.
     let r' = getRange (rsheet r) (rrow r) (rcol r) (rncols r + 1)
     in iobind (setValue r' (rncols r') (Str digest)) (\<lambda>_. ioreturn r'))"

subsection \<open>copyToFirstEmptyRow and moveToFirstEmptyRow\<close>

text \<open>A duplicate callback is the caller's code: it is given the destination range.\<close>

type_synonym callback = "range \<Rightarrow> unit io"

definition copyToFirstEmptyRow ::
    "(string \<Rightarrow> string) \<Rightarrow> range \<Rightarrow> string \<Rightarrow> bool \<Rightarrow> callback option \<Rightarrow> bool \<Rightarrow> bool \<Rightarrow> range io"
  where
  "copyToFirstEmptyRow h r sh digest duplicateCallback useLock ignoreCheckboxes =
     iobind (if useLock then waitLock else ioreturn ()) (\<lambda>_.
     iobind (case duplicateCallback of None \<Rightarrow> ioreturn False
             | Some cb \<Rightarrow> isDuplicate h r sh digest None 1) (\<lambda>duplicate.
     iobind (getFirstEmptyRow sh 1 ignoreCheckboxes) (\<lambda>firstEmpty.
     let destination = getRange sh (rrow firstEmpty) (rcol firstEmpty) (rncols r)
     in iobind (copyTo r destination) (\<lambda>_.
     iobind (if digest then addDigest h destination 1 None else ioreturn destination)
       (\<lambda>destination.
     iobind (if duplicate
             then (case duplicateCallback of None \<Rightarrow> ioreturn () | Some cb \<Rightarrow> cb destination)
             else ioreturn ()) (\<lambda>_.
     iobind (if useLock then releaseLock else ioreturn ()) (\<lambda>_.
     ioreturn destination)))))))"

definition moveToFirstEmptyRow ::
    "(string \<Rightarrow> string) \<Rightarrow> range \<Rightarrow> string \<Rightarrow> bool \<Rightarrow> callback option \<Rightarrow> bool \<Rightarrow> bool \<Rightarrow> range io"
  where
  "moveToFirstEmptyRow h r sh digest duplicateCallback useLock ignoreCheckboxes =
     iobind (if useLock then waitLock else ioreturn ()) (\<lambda>_.
     iobind (copyToFirstEmptyRow h r sh digest duplicateCallback False ignoreCheckboxes)
       (\<lambda>destination.
     iobind (deleteRow (rsheet r) (rrow r)) (\<lambda>_.
     iobind (if useLock then releaseLock else ioreturn ()) (\<lambda>_.
     ioreturn destination))))"

subsection \<open>getRangesInUse and sweep\<close>

text \<open>
  The \<^verbatim>\<open>for\<close> loop of \<^verbatim>\<open>getRangesInUse\<close> over \<^verbatim>\<open>i = 0 .. rowsAmt - 1\<close>; it runs
  no iteration when \<^verbatim>\<open>rowsAmt\<close> is zero or negative.
\<close>

fun getRangesInUse_loop ::
    "string \<Rightarrow> nat \<Rightarrow> nat \<Rightarrow> nat list \<Rightarrow> range list \<Rightarrow> range list io" where
  "getRangesInUse_loop sh frozenRows maxCols [] ranges = ioreturn ranges"
| "getRangesInUse_loop sh frozenRows maxCols (i # is) ranges =
     (let row = i + 1 + frozenRows; rg = getRange sh row 1 maxCols
      in iobind (getValues rg) (\<lambda>values.
         getRangesInUse_loop sh frozenRows maxCols is
           (if list_ex (\<lambda>val. val \<noteq> Str []) values then ranges @ [rg] else ranges)))"

definition getRangesInUse :: "string \<Rightarrow> bool \<Rightarrow> range list io" where
  "getRangesInUse sh excludeFrozen =
     iobind (ioget (\<lambda>w. if excludeFrozen then getFrozenRows (sheets w sh) else 0)) (\<lambda>frozenRows.
     iobind (ioget (\<lambda>w. int (getLastRow (sheets w sh)) - int frozenRows)) (\<lambda>rowsAmt.
     iobind (ioget (\<lambda>w. getLastColumn (sheets w sh))) (\<lambda>maxCols.
     getRangesInUse_loop sh frozenRows maxCols [0..<nat rowsAmt] [])))"

text \<open>\<^verbatim>\<open>forEach\<close>: an exception thrown by the function ends the iteration.\<close>

fun ioforEach :: "'a list \<Rightarrow> ('a \<Rightarrow> 'b io) \<Rightarrow> unit io" where
  "ioforEach [] f = ioreturn ()"
| "ioforEach (x # xs) f = iobind (f x) (\<lambda>_. ioforEach xs f)"

definition sweep :: "(string \<Rightarrow> string) \<Rightarrow> string \<Rightarrow> string \<Rightarrow> bool \<Rightarrow> unit io" where
  "sweep h sheetFrom sheetTo deleteFromSource =
     (if deleteFromSource
      then iobind (getRangesInUse sheetFrom True) (\<lambda>ranges.
           ioforEach (rev ranges) (\<lambda>rg. moveToFirstEmptyRow h rg sheetTo False None True True))
      else iobind (getRangesInUse sheetFrom True) (\<lambda>ranges.
           ioforEach ranges (\<lambda>rg. copyToFirstEmptyRow h rg sheetTo False None True True)))"

section \<open>Notions used in the statements\<close>

text \<open>The values \<^verbatim>\<open>range.getValues()[0]\<close> returns in a world.\<close>

definition rowValues :: "world \<Rightarrow> range \<Rightarrow> cellval list" where
  "rowValues w r = map cval (rangeCells (sheets w (rsheet r)) r)"

definition commaFree :: "string \<Rightarrow> bool" where
  "commaFree s = (CHR '','' \<notin> set s)"

subsection \<open>What a computation may do\<close>

text \<open>
  Every call into the service is recorded, so what a computation did to the lock and to
  a sheet can be read off the events it added: \<open>effect P w w'\<close> says that from \<open>w\<close>
  to \<open>w'\<close> only events satisfying \<open>P\<close> were added, that the lock is as it was when
  \<open>P\<close> excludes the lock calls, and that a sheet is as it was when \<open>P\<close> excludes the
  calls that write to it.
\<close>

fun touchesLock :: "event \<Rightarrow> bool" where
  "touchesLock EvWaitLock = True"
| "touchesLock EvReleaseLock = True"
| "touchesLock ev = False"

fun writesSheet :: "string \<Rightarrow> event \<Rightarrow> bool" where
  "writesSheet n (EvInsertRowBefore s pos) = (s = n)"
| "writesSheet n (EvInsertRowAfter s pos) = (s = n)"
| "writesSheet n (EvCopyTo src dst) = (rsheet dst = n)"
| "writesSheet n (EvSetValue s row col v) = (s = n)"
| "writesSheet n (EvDeleteRow s pos) = (s = n)"
| "writesSheet n ev = False"


fun readsColumn :: "string \<Rightarrow> nat \<Rightarrow> event \<Rightarrow> bool" where
  "readsColumn n c (EvGetColumn s row col k) = (s = n \<and> col = c)"
| "readsColumn n c ev = False"

definition effect :: "(event \<Rightarrow> bool) \<Rightarrow> world \<Rightarrow> world \<Rightarrow> bool" where
  "effect P w w' =
     ((\<exists>evs. trace w' = trace w @ evs \<and> list_all P evs) \<and>
      lockBusy w' = lockBusy w \<and>
      ((\<forall>ev. P ev \<longrightarrow> \<not> touchesLock ev) \<longrightarrow> lockHeld w' = lockHeld w) \<and>
      (\<forall>n. (\<forall>ev. P ev \<longrightarrow> \<not> writesSheet n ev) \<longrightarrow> sheets w' n = sheets w n))"

text \<open>
  \<open>confined P Q m\<close>: whatever the world, \<open>m\<close> only makes calls satisfying \<open>P\<close> and,
  when it throws, throws an error satisfying \<open>Q\<close>.
\<close>

definition confined :: "(event \<Rightarrow> bool) \<Rightarrow> (error \<Rightarrow> bool) \<Rightarrow> 'a io \<Rightarrow> bool" where
  "confined P Q m = (\<forall>w. effect P w (snd (m w)) \<and> (\<forall>e. fst (m w) = Inl e \<longrightarrow> Q e))"

subsection \<open>Rows of a sheet\<close>

text \<open>
  A sheet as the service keeps it: at least one column and one row, every row as wide as
  the sheet.
\<close>

definition wfSheet :: "sheet \<Rightarrow> bool" where
  "wfSheet s = (1 \<le> ncols s \<and> grid s \<noteq> [] \<and> list_all (\<lambda>row. length row = ncols s) (grid s))"

text \<open>Row \<open>row\<close> and the cell at \<open>(row, col)\<close>, numbered from 1.\<close>

definition rowAt :: "sheet \<Rightarrow> nat \<Rightarrow> cell list" where
  "rowAt s row = grid s ! (row - 1)"




subsection \<open>Rows moved by a sweep\<close>

text \<open>
  Deleting row \<open>r\<close> of a grid; the row written to the destination for a source row (the
  values of its first \<open>n\<close> cells on a blank row of the destination); the positions of
  the rows below the frozen rows that have content.
\<close>

definition delRow :: "'a list \<Rightarrow> nat \<Rightarrow> 'a list" where
  "delRow g r = take (r - 1) g @ drop r g"

definition movedRow :: "sheet \<Rightarrow> nat \<Rightarrow> cell list \<Rightarrow> cell list" where
  "movedRow d n row = pasteValues (map cval (take n row)) (blankRow d)"

definition usedRows :: "sheet \<Rightarrow> nat list" where
  "usedRows s =
     filter (\<lambda>r. rowHasContent (rowAt s r)) [frozen s + 1..<Suc (getLastRow s)]"

subsection \<open>Concrete sheets\<close>

definition strCell :: "string \<Rightarrow> cell" where
  "strCell v = \<lparr>cval = Str v, dval = None\<rparr>"

definition checkboxCell :: "bool \<Rightarrow> cell" where
  "checkboxCell b = \<lparr>cval = Bool b, dval = Some CHECKBOX\<rparr>"

definition noSheet :: sheet where
  "noSheet = \<lparr>grid = [], ncols = 0, frozen = 0\<rparr>"

text \<open>A world with a sheet ``Form'', a sheet ``Responses'' and the lock free.\<close>

definition mkWorld :: "sheet \<Rightarrow> sheet \<Rightarrow> world" where
  "mkWorld s d =
     \<lparr>sheets = (\<lambda>_. noSheet)(''Form'' := s, ''Responses'' := d),
      lockHeld = False, lockBusy = False, trace = []\<rparr>"

definition oneRow :: "string list \<Rightarrow> sheet" where
  "oneRow vs = \<lparr>grid = [map strCell vs], ncols = length vs, frozen = 0\<rparr>"

text \<open>A hash that returns its input, and a callback that does nothing.\<close>

definition plainHash :: "string \<Rightarrow> string" where
  "plainHash s = s"

definition ignoreDuplicate :: callback where
  "ignoreDuplicate d = ioreturn ()"

text \<open>A callback that flags the row it is given: it writes to its first cell.\<close>

definition flagDuplicate :: callback where
  "flagDuplicate d = setValue d 1 (Str ''duplicate'')"

text \<open>A sheet of text cells with \<open>f\<close> frozen rows.\<close>

definition textSheet :: "string list list \<Rightarrow> nat \<Rightarrow> nat \<Rightarrow> sheet" where
  "textSheet rows n f = \<lparr>grid = map (map strCell) rows, ncols = n, frozen = f\<rparr>"

text \<open>
  A header, a row of data with a ticked checkbox, a row that only holds an unticked
  checkbox, and an empty row.
\<close>

definition checkboxSheet :: sheet where
  "checkboxSheet =
     \<lparr>grid = [[strCell ''time'', strCell ''done''],
              [strCell ''t1'', checkboxCell True],
              [strCell [], checkboxCell False],
              [strCell [], strCell []]],
      ncols = 2, frozen = 1\<rparr>"

section \<open>The digest\<close>

lemma getValues_valid:
  "validRange (sheets w (rsheet r)) r \<Longrightarrow>
     getValues r w = (Inr (rowValues w r), logEvent (EvGetValues r) w)"
  by (simp add: getValues_def rowValues_def logEvent_def Let_def)

lemma getDigest_valid:
  "validRange (sheets w (rsheet r)) r \<Longrightarrow>
     getDigest h r k w = (Inr (h (digestInput (rowValues w r) k)), logEvent (EvGetValues r) w)"
  by (simp add: getDigest_def iobind_def ioreturn_def getValues_valid)

lemma js_join_Cons: "ss \<noteq> [] \<Longrightarrow> js_join (s # ss) = s @ '','' @ js_join ss"
  by (cases ss) simp_all

lemma takeWhile_until:
  "x \<notin> set s \<Longrightarrow> takeWhile (\<lambda>c. c \<noteq> x) (s @ x # a) = s"
  by (induction s) auto

lemma commaFree_split:
  assumes "commaFree s" "commaFree t" "s @ CHR '','' # a = t @ CHR '','' # b"
  shows "s = t \<and> a = b"
proof -
  have "takeWhile (\<lambda>c. c \<noteq> CHR '','') (s @ CHR '','' # a) = s"
    using assms(1) unfolding commaFree_def by (rule takeWhile_until)
  moreover have "takeWhile (\<lambda>c. c \<noteq> CHR '','') (t @ CHR '','' # b) = t"
    using assms(2) unfolding commaFree_def by (rule takeWhile_until)
  ultimately have "s = t" using assms(3) by simp
  with assms(3) show ?thesis by simp
qed

text \<open>Joining is injective on non-empty lists of strings without a comma.\<close>

lemma js_join_inject:
  assumes "list_all commaFree xs" "list_all commaFree ys" "xs \<noteq> []" "ys \<noteq> []"
    and "js_join xs = js_join ys"
  shows "xs = ys"
  using assms
proof (induction xs arbitrary: ys)
  case Nil
  then show ?case by simp
next
  case (Cons s xs)
  then obtain t ys' where ys: "ys = t # ys'" by (cases ys) auto
  show ?case
  proof (cases "xs = []")
    case True
    note xs = this
    show ?thesis
    proof (cases "ys' = []")
      case True
      with Cons.prems xs ys show ?thesis by simp
    next
      case False
      with Cons.prems xs ys have "s = t @ '','' @ js_join ys'" by (simp add: js_join_Cons)
      with Cons.prems(1) have False by (simp add: commaFree_def)
      then show ?thesis ..
    qed
  next
    case False
    note xs = this
    show ?thesis
    proof (cases "ys' = []")
      case True
      with Cons.prems xs ys have "t = s @ '','' @ js_join xs" by (simp add: js_join_Cons)
      with Cons.prems(2) ys have False by (simp add: commaFree_def)
      then show ?thesis ..
    next
      case False
      with Cons.prems xs ys have eq: "s @ CHR '','' # js_join xs = t @ CHR '','' # js_join ys'"
        by (simp add: js_join_Cons)
      have "s = t \<and> js_join xs = js_join ys'"
        using Cons.prems(1,2) ys by (intro commaFree_split[OF _ _ eq]) simp_all
      moreover from this Cons.prems xs ys False have "xs = ys'"
        by (intro Cons.IH) simp_all
      ultimately show ?thesis using ys by simp
    qed
  qed
qed

lemmas example_defs =
  mkWorld_def oneRow_def textSheet_def checkboxSheet_def strCell_def checkboxCell_def noSheet_def
  getRange_def
  plainHash_def ignoreDuplicate_def flagDuplicate_def

lemmas lib_defs =
  copyToFirstEmptyRow_def moveToFirstEmptyRow_def isDuplicate_def getFirstEmptyRow_def
  reserveRow_def addDigest_def getDigest_def digestInput_def isRangeEmpty_def
  iobind_def ioreturn_def iothrow_def ioget_def waitLock_def releaseLock_def getValues_def
  getDataValidations_def isBlank_def getColumnValues_def insertRowBefore_def insertRowAfter_def
  deleteRow_def lastUnfrozenRow_def withoutRow_def copyTo_def setValue_def Let_def

lemmas host_defs =
  validRange_def validColumn_def rangeCells_def columnCells_def rowValues_def logEvent_def
  setSheet_def blankRow_def blankCell_def writeRow_def hasContent_def rowHasContent_def
  getLastRow_def getMaxRows_def getMaxColumns_def getFrozenRows_def getLastColumn_def
  rowLastColumn_def

text \<open>
  C3 (as stated, fails): the values are joined with a comma, and a comma may stand in a
  value. The rows \<open>[t, "a,b"]\<close> and \<open>[t, "a", "b"]\<close> differ after the first column and
  both hand the string \<open>a,b\<close> to the hash; so do \<open>[t]\<close> and \<open>[t, ""]\<close> (the empty
  string), and \<open>[t, true]\<close> and \<open>[t, "true"]\<close>. Whatever the hash, the digests are equal.
\<close>

theorem getDigest_join_collides:
  "drop 1 [Str ''t'', Str ''a,b''] \<noteq> drop 1 [Str ''t'', Str ''a'', Str ''b''] \<and>
   digestInput [Str ''t'', Str ''a,b''] 1 = digestInput [Str ''t'', Str ''a'', Str ''b''] 1 \<and>
   drop 1 [Str ''t''] \<noteq> drop 1 [Str ''t'', Str []] \<and>
   digestInput [Str ''t''] 1 = digestInput [Str ''t'', Str []] 1 \<and>
   drop 1 [Str ''t'', Bool True] \<noteq> drop 1 [Str ''t'', Str ''true''] \<and>
   digestInput [Str ''t'', Bool True] 1 = digestInput [Str ''t'', Str ''true''] 1 \<and>
   fst (getDigest plainHash (getRange ''Form'' 1 1 2) 1 (mkWorld (oneRow [''t'', ''a,b'']) noSheet)) =
   fst (getDigest plainHash (getRange ''Form'' 1 1 3) 1
          (mkWorld (oneRow [''t'', ''a'', ''b'']) noSheet))"
  by (simp add: digestInput_def getDigest_valid example_defs host_defs)

text \<open>
  C3 (amended): when the values after the first \<open>k\<close> are rendered without a comma, both
  rows have at least one value after the first \<open>k\<close>, and the renderings differ, the
  strings handed to the hash differ; the two digests are then equal exactly when the hash
  collides on these two strings, so they differ whenever it does not.
\<close>

theorem getDigest_distinct_without_commas:
  assumes "validRange (sheets w1 (rsheet r1)) r1" and "validRange (sheets w2 (rsheet r2)) r2"
    and "list_all (\<lambda>x. commaFree (js_toString x)) (drop k (rowValues w1 r1))"
    and "list_all (\<lambda>x. commaFree (js_toString x)) (drop k (rowValues w2 r2))"
    and "drop k (rowValues w1 r1) \<noteq> []" and "drop k (rowValues w2 r2) \<noteq> []"
    and "map js_toString (drop k (rowValues w1 r1)) \<noteq> map js_toString (drop k (rowValues w2 r2))"
  shows "digestInput (rowValues w1 r1) k \<noteq> digestInput (rowValues w2 r2) k \<and>
         (fst (getDigest h r1 k w1) = fst (getDigest h r2 k w2)) =
           (h (digestInput (rowValues w1 r1) k) = h (digestInput (rowValues w2 r2) k))"
proof -
  have "digestInput (rowValues w1 r1) k \<noteq> digestInput (rowValues w2 r2) k"
    unfolding digestInput_def
    using js_join_inject[of "map js_toString (drop k (rowValues w1 r1))"
                            "map js_toString (drop k (rowValues w2 r2))"] assms(3-7)
    by (auto simp: list_all_iff)
  then show ?thesis
    using assms(1,2) by (simp add: getDigest_valid)
qed

theorem getDigest_distinct_without_commas_witness:
  "digestInput (rowValues (mkWorld (oneRow [''t'', ''alice'', ''42'']) noSheet)
                  (getRange ''Form'' 1 1 3)) 1 \<noteq>
   digestInput (rowValues (mkWorld (oneRow [''t'', ''alice'', ''43'']) noSheet)
                  (getRange ''Form'' 1 1 3)) 1 \<and>
   fst (getDigest plainHash (getRange ''Form'' 1 1 3) 1
          (mkWorld (oneRow [''t'', ''alice'', ''42'']) noSheet)) \<noteq>
   fst (getDigest plainHash (getRange ''Form'' 1 1 3) 1
          (mkWorld (oneRow [''t'', ''alice'', ''43'']) noSheet)) \<and>
   fst (getDigest (\<lambda>s. ''same'') (getRange ''Form'' 1 1 3) 1
          (mkWorld (oneRow [''t'', ''alice'', ''42'']) noSheet)) =
   fst (getDigest (\<lambda>s. ''same'') (getRange ''Form'' 1 1 3) 1
          (mkWorld (oneRow [''t'', ''alice'', ''43'']) noSheet))"
  using getDigest_distinct_without_commas
          [of "mkWorld (oneRow [''t'', ''alice'', ''42'']) noSheet" "getRange ''Form'' 1 1 3"
              "mkWorld (oneRow [''t'', ''alice'', ''43'']) noSheet" "getRange ''Form'' 1 1 3"
              1 plainHash]
        getDigest_distinct_without_commas
          [of "mkWorld (oneRow [''t'', ''alice'', ''42'']) noSheet" "getRange ''Form'' 1 1 3"
              "mkWorld (oneRow [''t'', ''alice'', ''43'']) noSheet" "getRange ''Form'' 1 1 3"
              1 "\<lambda>s. ''same''"]
  by (simp add: mkWorld_def oneRow_def strCell_def noSheet_def getRange_def host_defs
        commaFree_def plainHash_def digestInput_def)

text \<open>
  C4: the digest is a function of the values of the range after the first \<open>k\<close> alone.
  Two calls, in any two worlds (other sheets, lock and earlier calls may differ), on row
  ranges whose values agree from position \<open>k\<close> on return the same digest string, and
  the call returns a digest.
\<close>

theorem getDigest_depends_on_values_after_skip:
  assumes "validRange (sheets w1 (rsheet r1)) r1" and "validRange (sheets w2 (rsheet r2)) r2"
    and "drop k (rowValues w1 r1) = drop k (rowValues w2 r2)"
  shows "fst (getDigest h r1 k w1) = Inr (h (digestInput (rowValues w1 r1) k)) \<and>
         fst (getDigest h r2 k w2) = fst (getDigest h r1 k w1)"
  using assms by (simp add: getDigest_valid digestInput_def)

theorem getDigest_depends_on_values_after_skip_witness:
  "fst (getDigest plainHash (getRange ''Form'' 1 1 4) 1
          (mkWorld (oneRow [''2021-01-01'', ''a'', ''b'', ''c'']) noSheet)) = Inr ''a,b,c'' \<and>
   fst (getDigest plainHash (getRange ''Form'' 1 1 4) 1
          ((mkWorld (oneRow [''2021-01-02'', ''a'', ''b'', ''c''])
              (oneRow [''x'']))\<lparr>lockHeld := True\<rparr>)) =
   fst (getDigest plainHash (getRange ''Form'' 1 1 4) 1
          (mkWorld (oneRow [''2021-01-01'', ''a'', ''b'', ''c'']) noSheet))"
  using getDigest_depends_on_values_after_skip
          [of "mkWorld (oneRow [''2021-01-01'', ''a'', ''b'', ''c'']) noSheet"
              "getRange ''Form'' 1 1 4"
              "(mkWorld (oneRow [''2021-01-02'', ''a'', ''b'', ''c''])
                  (oneRow [''x'']))\<lparr>lockHeld := True\<rparr>"
              "getRange ''Form'' 1 1 4" 1 plainHash]
  by (simp add: example_defs host_defs digestInput_def)

section \<open>Effects of the host calls and of the library functions\<close>

lemma effect_refl: "effect P w w"
  by (simp add: effect_def)

lemma effect_trans:
  assumes "effect P w w1" and "effect P w1 w2"
  shows "effect P w w2"
proof -
  from assms obtain e1 e2 where "trace w1 = trace w @ e1" "list_all P e1"
    "trace w2 = trace w1 @ e2" "list_all P e2"
    unfolding effect_def by blast
  then have "trace w2 = trace w @ (e1 @ e2) \<and> list_all P (e1 @ e2)" by simp
  then have "\<exists>evs. trace w2 = trace w @ evs \<and> list_all P evs" by blast
  moreover have "lockBusy w2 = lockBusy w" using assms unfolding effect_def by simp
  moreover have "(\<forall>ev. P ev \<longrightarrow> \<not> touchesLock ev) \<longrightarrow> lockHeld w2 = lockHeld w"
    using assms unfolding effect_def by simp
  moreover have "\<forall>n. (\<forall>ev. P ev \<longrightarrow> \<not> writesSheet n ev) \<longrightarrow> sheets w2 n = sheets w n"
    using assms unfolding effect_def by simp
  ultimately show ?thesis unfolding effect_def by blast
qed

lemma confinedD:
  assumes "confined P Q m" and "m w = (res, w')"
  shows "effect P w w'" and "res = Inl e \<Longrightarrow> Q e"
  using assms by (auto simp: confined_def dest: spec[of _ w])

lemma confined_return: "confined P Q (ioreturn x)"
  by (simp add: confined_def ioreturn_def effect_refl)

lemma confined_throw: "Q e \<Longrightarrow> confined P Q (iothrow e)"
  by (simp add: confined_def iothrow_def effect_refl)

lemma confined_ioget: "confined P Q (ioget g)"
  by (simp add: confined_def ioget_def effect_refl)

lemma confined_bind:
  assumes "confined P Q m" and "\<And>x. confined P Q (f x)"
  shows "confined P Q (iobind m f)"
  unfolding confined_def
proof
  fix w
  obtain res w1 where m: "m w = (res, w1)" by (cases "m w")
  note 1 = confinedD[OF assms(1) m]
  show "effect P w (snd (iobind m f w)) \<and> (\<forall>e. fst (iobind m f w) = Inl e \<longrightarrow> Q e)"
  proof (cases res)
    case (Inl e)
    with m 1 show ?thesis by (simp add: iobind_def)
  next
    case (Inr x)
    obtain res2 w2 where f: "f x w1 = (res2, w2)" by (cases "f x w1")
    note 2 = confinedD[OF assms(2) f]
    from 1(1) 2(1) have "effect P w w2" by (rule effect_trans)
    with m Inr f 2(2) show ?thesis by (simp add: iobind_def)
  qed
qed

text \<open>The same, when the continuation is only known for the results \<open>m\<close> can return.\<close>

lemma confined_bind_res:
  assumes "confined P Q m" and "\<And>w x w'. m w = (Inr x, w') \<Longrightarrow> R x"
    and "\<And>x. R x \<Longrightarrow> confined P Q (f x)"
  shows "confined P Q (iobind m f)"
  unfolding confined_def
proof
  fix w
  obtain res w1 where m: "m w = (res, w1)" by (cases "m w")
  note 1 = confinedD[OF assms(1) m]
  show "effect P w (snd (iobind m f w)) \<and> (\<forall>e. fst (iobind m f w) = Inl e \<longrightarrow> Q e)"
  proof (cases res)
    case (Inl e)
    with m 1 show ?thesis by (simp add: iobind_def)
  next
    case (Inr x)
    obtain res2 w2 where f: "f x w1 = (res2, w2)" by (cases "f x w1")
    from m Inr have "R x" by (intro assms(2)) simp
    note 2 = confinedD[OF assms(3)[OF this] f]
    from 1(1) 2(1) have "effect P w w2" by (rule effect_trans)
    with m Inr f 2(2) show ?thesis by (simp add: iobind_def)
  qed
qed

lemma confined_if:
  "(c \<Longrightarrow> confined P Q a) \<Longrightarrow> (\<not> c \<Longrightarrow> confined P Q b) \<Longrightarrow>
     confined P Q (if c then a else b)"
  by simp

lemmas confined_intros =
  confined_bind confined_return confined_throw confined_ioget confined_if

lemma confined_waitLock: "P EvWaitLock \<Longrightarrow> Q LockTimeout \<Longrightarrow> confined P Q waitLock"
  by (auto simp: confined_def waitLock_def effect_def logEvent_def Let_def)

lemma confined_releaseLock: "P EvReleaseLock \<Longrightarrow> confined P Q releaseLock"
  by (auto simp: confined_def releaseLock_def effect_def logEvent_def Let_def)

lemma confined_getValues: "P (EvGetValues r) \<Longrightarrow> Q RangeError \<Longrightarrow> confined P Q (getValues r)"
  by (simp add: confined_def getValues_def effect_def logEvent_def Let_def)

lemma confined_getDataValidations:
  "P (EvGetDataValidations r) \<Longrightarrow> Q RangeError \<Longrightarrow> confined P Q (getDataValidations r)"
  by (simp add: confined_def getDataValidations_def effect_def logEvent_def Let_def)

lemma confined_isBlank: "P (EvIsBlank r) \<Longrightarrow> Q RangeError \<Longrightarrow> confined P Q (isBlank r)"
  by (simp add: confined_def isBlank_def effect_def logEvent_def Let_def)

lemma confined_getColumnValues:
  "P (EvGetColumn sh row col n) \<Longrightarrow> Q RangeError \<Longrightarrow>
     confined P Q (getColumnValues sh row col n)"
  by (simp add: confined_def getColumnValues_def effect_def logEvent_def Let_def)

lemma confined_insertRowBefore:
  "P (EvInsertRowBefore sh pos) \<Longrightarrow> Q RangeError \<Longrightarrow> confined P Q (insertRowBefore sh pos)"
  by (auto simp: confined_def insertRowBefore_def effect_def logEvent_def setSheet_def Let_def)

lemma confined_insertRowAfter:
  "P (EvInsertRowAfter sh pos) \<Longrightarrow> Q RangeError \<Longrightarrow> confined P Q (insertRowAfter sh pos)"
  by (auto simp: confined_def insertRowAfter_def effect_def logEvent_def setSheet_def Let_def)

lemma confined_deleteRow:
  "P (EvDeleteRow sh pos) \<Longrightarrow> Q RangeError \<Longrightarrow> Q DeleteRefused \<Longrightarrow>
     confined P Q (deleteRow sh pos)"
  by (auto simp: confined_def deleteRow_def effect_def logEvent_def setSheet_def Let_def)

lemma confined_copyTo:
  "P (EvCopyTo src dst) \<Longrightarrow> Q RangeError \<Longrightarrow> confined P Q (copyTo src dst)"
  by (auto simp: confined_def copyTo_def effect_def logEvent_def setSheet_def Let_def)

lemma confined_setValue:
  "P (EvSetValue (rsheet r) (rrow r) (rcol r + k - 1) v) \<Longrightarrow> Q RangeError \<Longrightarrow>
     confined P Q (setValue r k v)"
  by (auto simp: confined_def setValue_def effect_def logEvent_def setSheet_def Let_def)

lemma confined_getDigest:
  "P (EvGetValues r) \<Longrightarrow> Q RangeError \<Longrightarrow> confined P Q (getDigest h r k)"
  unfolding getDigest_def by (intro confined_intros confined_getValues)

lemma confined_isRangeEmpty:
  assumes "P (EvIsBlank r)" "P (EvGetValues r)" "P (EvGetDataValidations r)" "Q RangeError"
  shows "confined P Q (isRangeEmpty r ign)"
  unfolding isRangeEmpty_def
  by (intro confined_intros confined_getValues confined_isBlank confined_getDataValidations assms)

text \<open>The forward scan, by induction along its iterations.\<close>

lemma confined_scanForward_step:
  assumes "\<And>x. P (EvIsBlank x)" "\<And>x. P (EvGetValues x)" "\<And>x. P (EvGetDataValidations x)"
    and "Q RangeError"
  shows "effect P w (snd (scanForward sh cols mx ign i w)) \<and>
         (\<forall>e. fst (scanForward sh cols mx ign i w) = Inl e \<longrightarrow> Q e)"
proof (induction sh cols mx ign i w rule: scanForward.induct)
  case (1 sh cols mx ign i w)
  let ?r = "getRange sh (nat (i + 1 + 1)) 1 cols"
  obtain res w1 where m: "isRangeEmpty ?r ign w = (res, w1)" by (cases "isRangeEmpty ?r ign w")
  have "confined P Q (isRangeEmpty ?r ign)"
    by (intro confined_isRangeEmpty assms)
  note e1 = confinedD[OF this m]
  note unf = scanForward.simps[of sh cols mx ign i w]
  show ?case
  proof (cases "i + 1 < mx")
    case False
    then show ?thesis by (simp add: unf effect_refl)
  next
    case True
    show ?thesis
    proof (cases res)
      case (Inl e)
      with True m e1 show ?thesis by (simp add: unf)
    next
      case (Inr b)
      show ?thesis
      proof (cases b)
        case True
        with \<open>i + 1 < mx\<close> m e1 Inr show ?thesis by (simp add: unf)
      next
        case False
        have ih: "effect P w1 (snd (scanForward sh cols mx ign (i + 1) w1)) \<and>
                  (\<forall>e. fst (scanForward sh cols mx ign (i + 1) w1) = Inl e \<longrightarrow> Q e)"
          using "1.IH" \<open>i + 1 < mx\<close> m Inr False by simp
        with e1(1) have "effect P w (snd (scanForward sh cols mx ign (i + 1) w1))"
          by (blast intro: effect_trans)
        with \<open>i + 1 < mx\<close> m Inr False ih show ?thesis
          by (simp add: unf)
      qed
    qed
  qed
qed

lemma confined_scanForward:
  assumes "\<And>x. P (EvIsBlank x)" "\<And>x. P (EvGetValues x)" "\<And>x. P (EvGetDataValidations x)"
    and "Q RangeError"
  shows "confined P Q (scanForward sh cols mx ign i)"
  unfolding confined_def using confined_scanForward_step[of P Q, OF assms] by blast

lemma confined_reserveRow:
  assumes "\<And>pos. P (EvInsertRowBefore sh pos)" "\<And>pos. P (EvInsertRowAfter sh pos)"
    and "Q RangeError"
  shows "confined P Q (reserveRow sh row mx)"
  unfolding reserveRow_def
  by (intro confined_intros confined_insertRowAfter confined_insertRowBefore assms)

lemma confined_getFirstEmptyRow:
  assumes "\<And>x. P (EvIsBlank x)" "\<And>x. P (EvGetValues x)" "\<And>x. P (EvGetDataValidations x)"
    and "\<And>pos. P (EvInsertRowBefore sh pos)" "\<And>pos. P (EvInsertRowAfter sh pos)"
    and "\<And>n. P (EvGetColumn sh 1 index n)" and "Q RangeError"
  shows "confined P Q (getFirstEmptyRow sh index ign)"
  unfolding getFirstEmptyRow_def
  by (intro confined_intros confined_reserveRow confined_getColumnValues confined_scanForward
        assms)

lemma confined_isDuplicate:
  assumes "P (EvGetValues r)" "\<And>n. P (EvGetColumn sh 1 (rncols r + 1) n)"
    and "Q RangeError" "Q DigestRequired"
  shows "confined P Q (isDuplicate h r sh dg None k)"
  unfolding isDuplicate_def option.case
  by (intro confined_intros confined_getDigest confined_getColumnValues assms)

lemma confined_addDigest:
  assumes "P (EvGetValues d)" "\<And>row col v. P (EvSetValue (rsheet d) row col v)"
    and "Q RangeError"
  shows "confined P Q (addDigest h d k None)"
  unfolding addDigest_def Let_def option.case
  by (intro confined_intros confined_getDigest confined_setValue assms)
     (simp add: getRange_def assms)

lemma iobind_Inr:
  "iobind m f w = (Inr y, w') \<Longrightarrow> \<exists>x w1. m w = (Inr x, w1) \<and> f x w1 = (Inr y, w')"
  by (auto simp: iobind_def split: prod.splits sum.splits)

lemma addDigest_returns:
  "addDigest h d k None w = (Inr x, w') \<Longrightarrow>
     x = getRange (rsheet d) (rrow d) (rcol d) (rncols d + 1)"
  by (auto simp: addDigest_def Let_def ioreturn_def dest!: iobind_Inr)

text \<open>
  What follows the copy in \<^verbatim>\<open>copyToFirstEmptyRow\<close>: the digest cell, the callback on
  the destination range (a range of the destination sheet), the release of the lock.
\<close>

lemma confined_afterCopy:
  assumes "rsheet dest = sh"
    and "P (EvGetValues dest)" "\<And>row col v. P (EvSetValue sh row col v)" "Q RangeError"
    and "\<And>c d. cb = Some c \<Longrightarrow> rsheet d = sh \<Longrightarrow> confined P Q (c d)"
    and "ul \<Longrightarrow> P EvReleaseLock"
  shows "confined P Q
           (iobind (if dg then addDigest h dest k None else ioreturn dest) (\<lambda>destination.
            iobind (if dup then (case cb of None \<Rightarrow> ioreturn () | Some c \<Rightarrow> c destination)
                    else ioreturn ()) (\<lambda>_.
            iobind (if ul then releaseLock else ioreturn ()) (\<lambda>_. ioreturn destination))))"
proof (rule confined_bind_res[where R = "\<lambda>x. rsheet x = sh"])
  show "confined P Q (if dg then addDigest h dest k None else ioreturn dest)"
    using assms(1-4) by (intro confined_intros confined_addDigest) simp_all
next
  fix w x w'
  assume "(if dg then addDigest h dest k None else ioreturn dest) w = (Inr x, w')"
  then show "rsheet x = sh"
    using assms(1) by (auto simp: ioreturn_def getRange_def dest!: addDigest_returns split: if_splits)
next
  fix x :: range assume x: "rsheet x = sh"
  show "confined P Q
          (iobind (if dup then (case cb of None \<Rightarrow> ioreturn () | Some c \<Rightarrow> c x) else ioreturn ())
             (\<lambda>_. iobind (if ul then releaseLock else ioreturn ()) (\<lambda>_. ioreturn x)))"
  proof (cases cb)
    case None
    then show ?thesis
      by (simp only: option.case) (intro confined_intros confined_releaseLock assms(6))
  next
    case (Some c)
    then show ?thesis
      by (simp only: option.case)
         (intro confined_intros confined_releaseLock assms(6) assms(5)[OF Some x])
  qed
qed

text \<open>
  The calls of \<^verbatim>\<open>copyToFirstEmptyRow\<close>: reads of row ranges, the column read of the
  placement scan, the insertion of the reserved row, the copy, the digest cell; with a
  callback, the read of the digest column and what the callback does with a range of the
  destination sheet; with \<^verbatim>\<open>useLock\<close>, the two lock calls.
\<close>

lemma confined_copyToFirstEmptyRow:
  assumes "\<And>x. P (EvIsBlank x)" "\<And>x. P (EvGetValues x)" "\<And>x. P (EvGetDataValidations x)"
    and "\<And>pos. P (EvInsertRowBefore sh pos)" "\<And>pos. P (EvInsertRowAfter sh pos)"
    and "\<And>n. P (EvGetColumn sh 1 1 n)"
    and "\<And>d. rsheet d = sh \<Longrightarrow> P (EvCopyTo r d)"
    and "\<And>row col v. P (EvSetValue sh row col v)"
    and "Q RangeError"
    and "\<And>c n. cb = Some c \<Longrightarrow> P (EvGetColumn sh 1 (rncols r + 1) n)"
    and "\<And>c. cb = Some c \<Longrightarrow> Q DigestRequired"
    and "\<And>c d. cb = Some c \<Longrightarrow> rsheet d = sh \<Longrightarrow> confined P Q (c d)"
    and "ul \<Longrightarrow> P EvWaitLock" "ul \<Longrightarrow> P EvReleaseLock" "ul \<Longrightarrow> Q LockTimeout"
  shows "confined P Q (copyToFirstEmptyRow h r sh dg cb ul ign)"
proof -
  have tail: "confined P Q
           (iobind (if dg then addDigest h (getRange sh row col n) k None
                    else ioreturn (getRange sh row col n)) (\<lambda>destination.
            iobind (if dup then (case cb of None \<Rightarrow> ioreturn () | Some c \<Rightarrow> c destination)
                    else ioreturn ()) (\<lambda>_.
            iobind (if ul then releaseLock else ioreturn ()) (\<lambda>_. ioreturn destination))))"
    for row col n k dup
    by (rule confined_afterCopy[where sh = sh]) (simp_all add: getRange_def assms)
  show ?thesis
  proof (cases cb)
    case None
    show ?thesis
      unfolding copyToFirstEmptyRow_def Let_def None option.case
      by (intro tail[unfolded None option.case] confined_intros confined_getFirstEmptyRow
            confined_waitLock confined_copyTo assms(1-9) assms(13-15))
         (simp_all add: getRange_def assms)
  next
    case (Some c)
    show ?thesis
      unfolding copyToFirstEmptyRow_def Let_def Some option.case
      by (intro tail[unfolded Some option.case] confined_intros confined_getFirstEmptyRow
            confined_isDuplicate confined_waitLock confined_copyTo
            assms(1-9) assms(10,11)[OF Some] assms(13-15))
         (simp_all add: getRange_def assms)
  qed
qed

section \<open>The lock, the duplicate check and the move\<close>

lemma copy_locked:
  "copyToFirstEmptyRow h r sh dg cb True ign w =
     (case waitLock w of
        (Inl e, w1) \<Rightarrow> (Inl e, w1)
      | (Inr u, w1) \<Rightarrow>
          (case copyToFirstEmptyRow h r sh dg cb False ign w1 of
             (Inl e, w2) \<Rightarrow> (Inl e, w2)
           | (Inr d, w2) \<Rightarrow> (Inr d, snd (releaseLock w2))))"
  by (simp add: copyToFirstEmptyRow_def iobind_def ioreturn_def releaseLock_def Let_def
           split: prod.splits sum.splits)

lemma move_steps:
  "moveToFirstEmptyRow h r sh dg cb ul ign w =
     (case (if ul then waitLock else ioreturn ()) w of
        (Inl e, w1) \<Rightarrow> (Inl e, w1)
      | (Inr u, w1) \<Rightarrow>
          (case copyToFirstEmptyRow h r sh dg cb False ign w1 of
             (Inl e, w2) \<Rightarrow> (Inl e, w2)
           | (Inr d, w2) \<Rightarrow>
               (case deleteRow (rsheet r) (rrow r) w2 of
                  (Inl e, w3) \<Rightarrow> (Inl e, w3)
                | (Inr u, w3) \<Rightarrow> (Inr d, if ul then snd (releaseLock w3) else w3))))"
  by (simp add: moveToFirstEmptyRow_def iobind_def ioreturn_def releaseLock_def Let_def
           split: prod.splits sum.splits)

lemma waitLock_free:
  "\<not> lockBusy w \<Longrightarrow> waitLock w = (Inr (), (logEvent EvWaitLock w)\<lparr>lockHeld := True\<rparr>)"
  by (simp add: waitLock_def logEvent_def Let_def)

lemma copy_keeps_lock:
  assumes "\<forall>c d. cb = Some c \<longrightarrow> confined (\<lambda>ev. \<not> touchesLock ev) (\<lambda>e. True) (c d)"
    and "copyToFirstEmptyRow h r sh dg cb False ign w = (res, w')"
  shows "lockHeld w' = lockHeld w"
proof -
  have "confined (\<lambda>ev. \<not> touchesLock ev) (\<lambda>e. True) (copyToFirstEmptyRow h r sh dg cb False ign)"
    using assms(1) by (intro confined_copyToFirstEmptyRow) simp_all
  from confinedD(1)[OF this assms(2)] show ?thesis by (simp add: effect_def)
qed

lemma deleteRow_keeps_lock: "lockHeld (snd (deleteRow sh pos w)) = lockHeld w"
  by (simp add: deleteRow_def logEvent_def setSheet_def Let_def)

text \<open>
  C1 (as stated, fails): neither function has a \<^verbatim>\<open>try\<close>/\<^verbatim>\<open>finally\<close>; the
  \<^verbatim>\<open>releaseLock()\<close> call is the last statement and is skipped when a step throws.
  With a callback and \<^verbatim>\<open>digest = false\<close> on a destination that has a row, the
  duplicate check throws ``Digest required for duplication check'' and the call returns
  with the lock still held and no release call made.
\<close>

theorem lock_kept_when_duplicate_check_throws:
  "fst (copyToFirstEmptyRow plainHash (getRange ''Form'' 1 1 2) ''Responses'' False
          (Some ignoreDuplicate) True True
          (mkWorld (oneRow [''t1'', ''alice'']) (oneRow [''t0'', ''bob'']))) = Inl DigestRequired \<and>
   lockHeld (snd (copyToFirstEmptyRow plainHash (getRange ''Form'' 1 1 2) ''Responses'' False
          (Some ignoreDuplicate) True True
          (mkWorld (oneRow [''t1'', ''alice'']) (oneRow [''t0'', ''bob''])))) \<and>
   trace (snd (copyToFirstEmptyRow plainHash (getRange ''Form'' 1 1 2) ''Responses'' False
          (Some ignoreDuplicate) True True
          (mkWorld (oneRow [''t1'', ''alice'']) (oneRow [''t0'', ''bob''])))) = [EvWaitLock] \<and>
   fst (moveToFirstEmptyRow plainHash (getRange ''Form'' 1 1 2) ''Responses'' False
          (Some ignoreDuplicate) True True
          (mkWorld (oneRow [''t1'', ''alice'']) (oneRow [''t0'', ''bob'']))) = Inl DigestRequired \<and>
   lockHeld (snd (moveToFirstEmptyRow plainHash (getRange ''Form'' 1 1 2) ''Responses'' False
          (Some ignoreDuplicate) True True
          (mkWorld (oneRow [''t1'', ''alice'']) (oneRow [''t0'', ''bob'']))))"
  by (simp add: lib_defs example_defs host_defs)

text \<open>
  C1 (amended): with \<^verbatim>\<open>useLock = true\<close> and the lock obtained, the lock is released
  exactly when every step succeeds. When a step after the acquisition throws, the error
  reaches the caller with the lock still held. (The callback is the caller's code; it is
  taken not to call the lock service itself.)
\<close>

theorem lock_released_iff_no_step_throws:
  assumes "\<not> lockBusy w"
    and "\<forall>c d. cb = Some c \<longrightarrow> confined (\<lambda>ev. \<not> touchesLock ev) (\<lambda>e. True) (c d)"
  shows "lockHeld (snd (copyToFirstEmptyRow h r sh dg cb True ign w)) =
           (\<exists>e. fst (copyToFirstEmptyRow h r sh dg cb True ign w) = Inl e) \<and>
         lockHeld (snd (moveToFirstEmptyRow h r sh dg cb True ign w)) =
           (\<exists>e. fst (moveToFirstEmptyRow h r sh dg cb True ign w) = Inl e)"
proof -
  let ?w1 = "(logEvent EvWaitLock w)\<lparr>lockHeld := True\<rparr>"
  obtain res w2 where c: "copyToFirstEmptyRow h r sh dg cb False ign ?w1 = (res, w2)"
    by (cases "copyToFirstEmptyRow h r sh dg cb False ign ?w1")
  have l2: "lockHeld w2" using copy_keeps_lock[OF assms(2) c] by simp
  have "lockHeld (snd (copyToFirstEmptyRow h r sh dg cb True ign w)) =
           (\<exists>e. fst (copyToFirstEmptyRow h r sh dg cb True ign w) = Inl e)"
    using assms(1) c l2
    by (cases res) (simp_all add: copy_locked waitLock_free releaseLock_def logEvent_def)
  moreover have "lockHeld (snd (moveToFirstEmptyRow h r sh dg cb True ign w)) =
           (\<exists>e. fst (moveToFirstEmptyRow h r sh dg cb True ign w) = Inl e)"
  proof (cases res)
    case (Inl e)
    with assms(1) c l2 show ?thesis by (simp add: move_steps waitLock_free)
  next
    case (Inr d)
    obtain res3 w3 where d: "deleteRow (rsheet r) (rrow r) w2 = (res3, w3)"
      by (cases "deleteRow (rsheet r) (rrow r) w2")
    have "lockHeld w3" using deleteRow_keeps_lock[of "rsheet r" "rrow r" w2] d l2 by simp
    with assms(1) c Inr d show ?thesis
      by (cases res3) (simp_all add: move_steps waitLock_free releaseLock_def logEvent_def)
  qed
  ultimately show ?thesis by simp
qed

theorem lock_released_iff_no_step_throws_witness:
  "fst (copyToFirstEmptyRow plainHash (getRange ''Form'' 1 1 2) ''Responses'' True
          (Some ignoreDuplicate) True True
          (mkWorld (oneRow [''t1'', ''alice'']) (oneRow [''t0'', ''alice'', ''alice'']))) =
     Inr (getRange ''Responses'' 2 1 3) \<and>
   \<not> lockHeld (snd (copyToFirstEmptyRow plainHash (getRange ''Form'' 1 1 2) ''Responses'' True
          (Some ignoreDuplicate) True True
          (mkWorld (oneRow [''t1'', ''alice'']) (oneRow [''t0'', ''alice'', ''alice''])))) \<and>
   fst (moveToFirstEmptyRow plainHash (getRange ''Form'' 1 1 2) ''Responses'' False
          (Some ignoreDuplicate) True True
          (mkWorld (oneRow [''t1'', ''alice'']) (oneRow [''t0'', ''alice'', ''alice'']))) =
     Inl DigestRequired \<and>
   lockHeld (snd (moveToFirstEmptyRow plainHash (getRange ''Form'' 1 1 2) ''Responses'' False
          (Some ignoreDuplicate) True True
          (mkWorld (oneRow [''t1'', ''alice'']) (oneRow [''t0'', ''alice'', ''alice'']))))"
proof -
  have cb: "\<forall>c d. Some ignoreDuplicate = Some c \<longrightarrow>
              confined (\<lambda>ev. \<not> touchesLock ev) (\<lambda>e. True) (c d)"
    by (simp add: ignoreDuplicate_def confined_return)
  have free: "\<not> lockBusy (mkWorld (oneRow [''t1'', ''alice'']) (oneRow [''t0'', ''alice'', ''alice'']))"
    by (simp add: mkWorld_def)
  have 1: "fst (copyToFirstEmptyRow plainHash (getRange ''Form'' 1 1 2) ''Responses'' True
          (Some ignoreDuplicate) True True
          (mkWorld (oneRow [''t1'', ''alice'']) (oneRow [''t0'', ''alice'', ''alice'']))) =
     Inr (getRange ''Responses'' 2 1 3)"
    by (simp add: lib_defs example_defs host_defs)
  have 2: "fst (moveToFirstEmptyRow plainHash (getRange ''Form'' 1 1 2) ''Responses'' False
          (Some ignoreDuplicate) True True
          (mkWorld (oneRow [''t1'', ''alice'']) (oneRow [''t0'', ''alice'', ''alice'']))) =
     Inl DigestRequired"
    by (simp add: lib_defs example_defs host_defs)
  show ?thesis
    using lock_released_iff_no_step_throws[OF free cb, of plainHash "getRange ''Form'' 1 1 2"
            "''Responses''" True True]
          lock_released_iff_no_step_throws[OF free cb, of plainHash "getRange ''Form'' 1 1 2"
            "''Responses''" False True]
    unfolding 1 2 by simp
qed

subsection \<open>The move deletes last\<close>

























subsection \<open>The duplicate check\<close>

text \<open>
  C6 (as stated, fails): the function returns \<^verbatim>\<open>false\<close> before it looks at
  \<^verbatim>\<open>useDigest\<close> when \<^verbatim>\<open>last\<close> is 0, and \<^verbatim>\<open>last\<close> is a parameter: a call
  with \<^verbatim>\<open>useDigest = false\<close> and \<^verbatim>\<open>last = 0\<close> on a sheet that has data returns
  \<^verbatim>\<open>false\<close> and throws nothing.
\<close>

theorem isDuplicate_last_zero_returns_false:
  "getLastRow (sheets (mkWorld (oneRow [''t1'', ''alice'']) (oneRow [''t0'', ''bob''])) ''Responses'')
     = 1 \<and>
   fst (isDuplicate plainHash (getRange ''Form'' 1 1 2) ''Responses'' False (Some 0) 1
          (mkWorld (oneRow [''t1'', ''alice'']) (oneRow [''t0'', ''bob'']))) = Inr False"
  by (simp add: lib_defs example_defs host_defs)

text \<open>
  C6 (amended): a call with \<^verbatim>\<open>useDigest = false\<close> throws ``Digest required for
  duplication check'', and touches nothing, whenever the last row to check (the argument
  \<^verbatim>\<open>last\<close>, or the sheet's last data row when it is not given) is not 0.
\<close>

theorem isDuplicate_without_digest_throws:
  assumes "(case lst of Some l \<Rightarrow> l | None \<Rightarrow> getLastRow (sheets w sh)) \<noteq> 0"
  shows "isDuplicate h r sh False lst skip w = (Inl DigestRequired, w)"
  using assms
  by (cases lst) (simp_all add: isDuplicate_def iobind_def ioreturn_def ioget_def iothrow_def)

theorem isDuplicate_without_digest_throws_witness:
  "fst (isDuplicate plainHash (getRange ''Form'' 1 1 2) ''Responses'' False None 1
          (mkWorld (oneRow [''t1'', ''alice'']) (oneRow [''t0'', ''bob'']))) = Inl DigestRequired \<and>
   fst (isDuplicate plainHash (getRange ''Form'' 1 1 2) ''Responses'' False (Some 5) 1
          (mkWorld (oneRow [''t1'', ''alice'']) (oneRow [''t0'', ''bob'']))) = Inl DigestRequired"
  using isDuplicate_without_digest_throws[where lst = None and sh = "''Responses''"
          and w = "mkWorld (oneRow [''t1'', ''alice'']) (oneRow [''t0'', ''bob''])"
          and h = plainHash and r = "getRange ''Form'' 1 1 2" and skip = 1]
        isDuplicate_without_digest_throws[where lst = "Some 5" and sh = "''Responses''"
          and w = "mkWorld (oneRow [''t1'', ''alice'']) (oneRow [''t0'', ''bob''])"
          and h = plainHash and r = "getRange ''Form'' 1 1 2" and skip = 1]
  by (simp add: example_defs host_defs)

lemma confined_moveToFirstEmptyRow:
  assumes "\<And>x. P (EvIsBlank x)" "\<And>x. P (EvGetValues x)" "\<And>x. P (EvGetDataValidations x)"
    and "\<And>pos. P (EvInsertRowBefore sh pos)" "\<And>pos. P (EvInsertRowAfter sh pos)"
    and "\<And>n. P (EvGetColumn sh 1 1 n)"
    and "\<And>d. rsheet d = sh \<Longrightarrow> P (EvCopyTo r d)"
    and "\<And>row col v. P (EvSetValue sh row col v)"
    and "Q RangeError"
    and "\<And>c n. cb = Some c \<Longrightarrow> P (EvGetColumn sh 1 (rncols r + 1) n)"
    and "\<And>c. cb = Some c \<Longrightarrow> Q DigestRequired"
    and "\<And>c d. cb = Some c \<Longrightarrow> confined P Q (c d)"
    and "ul \<Longrightarrow> P EvWaitLock" "ul \<Longrightarrow> P EvReleaseLock" "ul \<Longrightarrow> Q LockTimeout"
    and "P (EvDeleteRow (rsheet r) (rrow r))" "Q DeleteRefused"
  shows "confined P Q (moveToFirstEmptyRow h r sh dg cb ul ign)"
  unfolding moveToFirstEmptyRow_def
  by (intro confined_intros confined_waitLock confined_releaseLock confined_deleteRow
        confined_copyToFirstEmptyRow assms) simp_all

lemma confined_newEvents:
  assumes "confined (\<lambda>ev. \<not> R ev) Q m"
  shows "(\<exists>evs. trace (snd (m w)) = trace w @ evs \<and> \<not> list_ex R evs) \<and>
         (\<forall>e. fst (m w) = Inl e \<longrightarrow> Q e)"
proof -
  obtain res w' where m: "m w = (res, w')" by (cases "m w")
  from confinedD(1)[OF assms m] obtain evs
    where "trace w' = trace w @ evs" "list_all (\<lambda>ev. \<not> R ev) evs"
    unfolding effect_def by blast
  moreover from this have "\<not> list_ex R evs" by (simp add: list_all_iff list_ex_iff)
  ultimately show ?thesis using m confinedD(2)[OF assms m] by auto
qed

lemma copy_without_digest_throws:
  assumes "0 < getLastRow (sheets w sh)"
  shows "copyToFirstEmptyRow h r sh False (Some c) ul ign w =
           (if ul then (if lockBusy w then (Inl LockTimeout, logEvent EvWaitLock w)
                        else (Inl DigestRequired, (logEvent EvWaitLock w)\<lparr>lockHeld := True\<rparr>))
            else (Inl DigestRequired, w))"
  using assms
  by (simp add: copyToFirstEmptyRow_def isDuplicate_def iobind_def ioreturn_def ioget_def
        iothrow_def waitLock_def logEvent_def Let_def)

text \<open>
  C10: the duplicate check is the right operand of
  \<^verbatim>\<open>duplicateCallback !== null && isDuplicate(...)\<close>. Without a callback, a copy or a
  move never makes the column read of the duplicate check (a
  \<^verbatim>\<open>getRange(1, n + 1, last, 1).getValues()\<close> on the destination sheet, \<open>n\<close> the
  width of the range) and never throws the error of the duplicate check, whatever
  \<^verbatim>\<open>digest\<close> is.
  With a callback and \<^verbatim>\<open>digest = false\<close>, on a destination whose last row is at least
  1, the call throws (the duplicate check's error, unless the lock was asked for and timed
  out) and every sheet is as it was.
\<close>

theorem duplicate_check_only_with_callback:
  assumes "1 \<le> rncols r"
  shows "(\<exists>evs. trace (snd (copyToFirstEmptyRow h r sh dg None ul ign w)) = trace w @ evs \<and>
            \<not> list_ex (readsColumn sh (rncols r + 1)) evs) \<and>
         fst (copyToFirstEmptyRow h r sh dg None ul ign w) \<noteq> Inl DigestRequired \<and>
         (\<exists>evs. trace (snd (moveToFirstEmptyRow h r sh dg None ul ign w)) = trace w @ evs \<and>
            \<not> list_ex (readsColumn sh (rncols r + 1)) evs) \<and>
         fst (moveToFirstEmptyRow h r sh dg None ul ign w) \<noteq> Inl DigestRequired \<and>
         (0 < getLastRow (sheets w sh) \<longrightarrow>
            fst (copyToFirstEmptyRow h r sh False (Some c) ul ign w) =
              Inl (if ul \<and> lockBusy w then LockTimeout else DigestRequired) \<and>
            sheets (snd (copyToFirstEmptyRow h r sh False (Some c) ul ign w)) = sheets w \<and>
            fst (moveToFirstEmptyRow h r sh False (Some c) ul ign w) =
              Inl (if ul \<and> lockBusy w then LockTimeout else DigestRequired) \<and>
            sheets (snd (moveToFirstEmptyRow h r sh False (Some c) ul ign w)) = sheets w)"
proof -
  have "confined (\<lambda>ev. \<not> readsColumn sh (rncols r + 1) ev) (\<lambda>e. e \<noteq> DigestRequired)
          (copyToFirstEmptyRow h r sh dg None ul ign)"
    using assms by (intro confined_copyToFirstEmptyRow) simp_all
  note a = confined_newEvents[OF this, of w]
  have "confined (\<lambda>ev. \<not> readsColumn sh (rncols r + 1) ev) (\<lambda>e. e \<noteq> DigestRequired)
          (moveToFirstEmptyRow h r sh dg None ul ign)"
    using assms by (intro confined_moveToFirstEmptyRow) simp_all
  note b = confined_newEvents[OF this, of w]
  have c: "0 < getLastRow (sheets w sh) \<longrightarrow>
            fst (copyToFirstEmptyRow h r sh False (Some c) ul ign w) =
              Inl (if ul \<and> lockBusy w then LockTimeout else DigestRequired) \<and>
            sheets (snd (copyToFirstEmptyRow h r sh False (Some c) ul ign w)) = sheets w"
    by (simp add: copy_without_digest_throws logEvent_def)
  have d: "0 < getLastRow (sheets w sh) \<longrightarrow>
            fst (moveToFirstEmptyRow h r sh False (Some c) ul ign w) =
              Inl (if ul \<and> lockBusy w then LockTimeout else DigestRequired) \<and>
            sheets (snd (moveToFirstEmptyRow h r sh False (Some c) ul ign w)) = sheets w"
    by (simp add: move_steps copy_without_digest_throws waitLock_def ioreturn_def
          logEvent_def Let_def)
  from a b c d show ?thesis by blast
qed

theorem duplicate_check_only_with_callback_witness:
  "\<not> list_ex (readsColumn ''Responses'' 3)
       (trace (snd (copyToFirstEmptyRow plainHash (getRange ''Form'' 1 1 2) ''Responses'' True
                      None True False
                      (mkWorld (oneRow [''t1'', ''alice''])
                               (oneRow [''t0'', ''alice'', ''alice'']))))) \<and>
   fst (copyToFirstEmptyRow plainHash (getRange ''Form'' 1 1 2) ''Responses'' False
          (Some ignoreDuplicate) True False
          (mkWorld (oneRow [''t1'', ''alice'']) (oneRow [''t0'', ''alice'', ''alice''])))
     = Inl DigestRequired \<and>
   sheets (snd (copyToFirstEmptyRow plainHash (getRange ''Form'' 1 1 2) ''Responses'' False
          (Some ignoreDuplicate) True False
          (mkWorld (oneRow [''t1'', ''alice'']) (oneRow [''t0'', ''alice'', ''alice'']))))
     = sheets (mkWorld (oneRow [''t1'', ''alice'']) (oneRow [''t0'', ''alice'', ''alice'']))"
  using duplicate_check_only_with_callback[where r = "getRange ''Form'' 1 1 2"
          and h = plainHash and sh = "''Responses''" and dg = True and ul = True and ign = False
          and c = ignoreDuplicate
          and w = "mkWorld (oneRow [''t1'', ''alice'']) (oneRow [''t0'', ''alice'', ''alice''])"]
  by (auto simp: example_defs host_defs)

section \<open>Placement\<close>

lemma getLastRow_le: "getLastRow s \<le> length (grid s)"
  unfolding getLastRow_def using length_dropWhile_le[of _ "rev (grid s)"] by simp

text \<open>
  C7: with \<^verbatim>\<open>ignoreCheckboxes = true\<close> (the path that appends), on a sheet with at
  least one allocated row, the function returns the first cell of row
  \<^verbatim>\<open>getLastRow() + 1\<close>, after inserting one blank row at that position: the rows up
  to the last data row stay, the sheet has one row more, and when the last data row is
  the last allocated row the new row is added after it.
\<close>

theorem getFirstEmptyRow_append:
  assumes "grid (sheets w sh) \<noteq> []"
  shows "fst (getFirstEmptyRow sh index True w) =
           Inr (getRange sh (getLastRow (sheets w sh) + 1) 1 1) \<and>
         grid (sheets (snd (getFirstEmptyRow sh index True w)) sh) =
           take (getLastRow (sheets w sh)) (grid (sheets w sh)) @
           blankRow (sheets w sh) # drop (getLastRow (sheets w sh)) (grid (sheets w sh)) \<and>
         getMaxRows (sheets (snd (getFirstEmptyRow sh index True w)) sh) =
           getMaxRows (sheets w sh) + 1 \<and>
         trace (snd (getFirstEmptyRow sh index True w)) =
           trace w @ [if getLastRow (sheets w sh) = getMaxRows (sheets w sh)
                      then EvInsertRowAfter sh (getMaxRows (sheets w sh))
                      else EvInsertRowBefore sh (getLastRow (sheets w sh) + 1)]"
proof -
  from assms have pos: "Suc 0 \<le> length (grid (sheets w sh))"
    by (cases "grid (sheets w sh)") simp_all
  show ?thesis
  proof (cases "getLastRow (sheets w sh) = length (grid (sheets w sh))")
    case True
    with pos show ?thesis
      by (simp add: getFirstEmptyRow_def reserveRow_def iobind_def ioget_def ioreturn_def
            insertRowAfter_def getMaxRows_def logEvent_def setSheet_def getRange_def Let_def
            nat_add_distrib)
  next
    case False
    with getLastRow_le[of "sheets w sh"]
    have "getLastRow (sheets w sh) < length (grid (sheets w sh))" by simp
    with pos show ?thesis
      by (simp add: getFirstEmptyRow_def reserveRow_def iobind_def ioget_def ioreturn_def
            insertRowBefore_def getMaxRows_def logEvent_def setSheet_def getRange_def Let_def
            nat_add_distrib)
  qed
qed

theorem getFirstEmptyRow_append_witness:
  "fst (getFirstEmptyRow ''Responses'' 1 True
          (mkWorld noSheet (textSheet [[''name''], [''a''], [''b'']] 1 1))) =
     Inr (getRange ''Responses'' 4 1 1) \<and>
   grid (sheets (snd (getFirstEmptyRow ''Responses'' 1 True
          (mkWorld noSheet (textSheet [[''name''], [''a''], [''b'']] 1 1)))) ''Responses'') =
     grid (textSheet [[''name''], [''a''], [''b''], [[]]] 1 1) \<and>
   trace (snd (getFirstEmptyRow ''Responses'' 1 True
          (mkWorld noSheet (textSheet [[''name''], [''a''], [''b'']] 1 1)))) =
     [EvInsertRowAfter ''Responses'' 3]"
  using getFirstEmptyRow_append[where sh = "''Responses''" and index = 1
          and w = "mkWorld noSheet (textSheet [[''name''], [''a''], [''b'']] 1 1)"]
  by (simp add: example_defs host_defs)

text \<open>
  C8 (the code does not do this): \<^verbatim>\<open>isRangeEmpty(range, true)\<close> does treat a row
  whose only filled cells are checkboxes as empty, but \<^verbatim>\<open>getFirstEmptyRow\<close> calls it
  only in the branch taken when \<^verbatim>\<open>ignoreCheckboxes\<close> is false, where it tests
  \<^verbatim>\<open>isBlank()\<close>. With \<^verbatim>\<open>ignoreCheckboxes = true\<close> the target is
  \<^verbatim>\<open>getLastRow() + 1\<close>, and an unticked checkbox is content: on a sheet whose row 3
  holds only a checkbox, row 3 is empty for \<^verbatim>\<open>isRangeEmpty\<close>, yet the row reserved is
  row 4, with either value of the flag.
\<close>

theorem checkbox_row_is_not_a_target:
  "fst (isRangeEmpty (getRange ''Responses'' 3 1 2) True (mkWorld noSheet checkboxSheet)) =
     Inr True \<and>
   fst (getFirstEmptyRow ''Responses'' 1 True (mkWorld noSheet checkboxSheet)) =
     Inr (getRange ''Responses'' 4 1 1) \<and>
   trace (snd (getFirstEmptyRow ''Responses'' 1 True (mkWorld noSheet checkboxSheet))) =
     [EvInsertRowBefore ''Responses'' 4] \<and>
   fst (getFirstEmptyRow ''Responses'' 1 False (mkWorld noSheet checkboxSheet)) =
     Inr (getRange ''Responses'' 4 1 1)"
  by (simp add: lib_defs example_defs host_defs scanBack.simps scanForward.simps js_index_def)

subsection \<open>The scanning path\<close>

















section \<open>The sweep\<close>

lemma grid_split:
  "take (getLastRow s) (grid s) = rev (dropWhile (\<lambda>r. \<not> rowHasContent r) (rev (grid s)))"
  "drop (getLastRow s) (grid s) = rev (takeWhile (\<lambda>r. \<not> rowHasContent r) (rev (grid s)))"
proof -
  let ?P = "\<lambda>r. \<not> rowHasContent r"
  have "rev (grid s) = takeWhile ?P (rev (grid s)) @ dropWhile ?P (rev (grid s))" by simp
  then have "grid s = rev (dropWhile ?P (rev (grid s))) @ rev (takeWhile ?P (rev (grid s)))"
    by (metis rev_append rev_rev_ident)
  then have g: "grid s = rev (dropWhile ?P (rev (grid s))) @ rev (takeWhile ?P (rev (grid s)))"
    (is "_ = ?a @ ?b") .
  have "length ?a = getLastRow s" by (simp add: getLastRow_def)
  then have "take (getLastRow s) (?a @ ?b) = ?a" "drop (getLastRow s) (?a @ ?b) = ?b" by simp_all
  with g show "take (getLastRow s) (grid s) = ?a" "drop (getLastRow s) (grid s) = ?b" by simp_all
qed

lemma rows_after_last_blank:
  "r \<in> set (drop (getLastRow s) (grid s)) \<Longrightarrow> \<not> rowHasContent r"
  unfolding grid_split(2) by (auto dest: set_takeWhileD)

lemma getLastRow_insert:
  assumes "list_all rowHasContent P"
  shows "getLastRow (s\<lparr>grid := take (getLastRow s) (grid s) @ P @ drop (getLastRow s) (grid s)\<rparr>)
           = getLastRow s + length P"
proof -
  let ?B = "\<lambda>r. \<not> rowHasContent r"
  let ?t = "takeWhile ?B (rev (grid s))" and ?d = "dropWhile ?B (rev (grid s))"
  have rv: "rev (take (getLastRow s) (grid s) @ P @ drop (getLastRow s) (grid s)) =
              ?t @ rev P @ ?d"
    by (simp add: grid_split)
  have t: "\<And>x. x \<in> set ?t \<Longrightarrow> ?B x" by (auto dest: set_takeWhileD)
  have "dropWhile ?B (?t @ rev P @ ?d) = dropWhile ?B (rev P @ ?d)"
    using t by (simp add: dropWhile_append2)
  also have "\<dots> = rev P @ ?d"
  proof (cases P rule: rev_cases)
    case Nil
    then show ?thesis by simp
  next
    case (snoc P' x)
    with assms have "rowHasContent x" by simp
    with snoc show ?thesis by simp
  qed
  finally have dw: "dropWhile ?B (?t @ rev P @ ?d) = rev P @ ?d" .
  let ?G = "take (getLastRow s) (grid s) @ P @ drop (getLastRow s) (grid s)"
  have "getLastRow (s\<lparr>grid := ?G\<rparr>) = length (dropWhile ?B (rev ?G))"
    by (simp add: getLastRow_def)
  also have "\<dots> = length (dropWhile ?B (?t @ rev P @ ?d))" by (simp only: rv)
  also have "\<dots> = length (rev P @ ?d)" by (simp only: dw)
  also have "\<dots> = getLastRow s + length P" by (simp add: getLastRow_def)
  finally show ?thesis .
qed

lemma foldl_delRow_used:
  "foldl delRow (p @ b @ t)
     (rev (map (\<lambda>i. length p + i + 1) (filter (\<lambda>i. U (b ! i)) [0..<length b]))) =
   p @ filter (\<lambda>x. \<not> U x) b @ t"
proof (induction b arbitrary: t rule: rev_induct)
  case Nil
  show ?case by simp
next
  case (snoc x b)
  have fc: "filter (\<lambda>i. U ((b @ [x]) ! i)) [0..<length b] = filter (\<lambda>i. U (b ! i)) [0..<length b]"
    by (rule filter_cong) (auto simp: nth_append)
  show ?case
  proof (cases "U x")
    case True
    have "delRow (p @ (b @ [x]) @ t) (length p + length b + 1) = p @ b @ t"
      by (simp add: delRow_def)
    with True snoc[of t] show ?thesis by (simp add: fc)
  next
    case False
    with snoc[of "x # t"] show ?thesis by (simp add: fc)
  qed
qed


lemma append_path_world:
  assumes "grid (sheets w sh) \<noteq> []"
  shows "getFirstEmptyRow sh index True w =
           (Inr (getRange sh (getLastRow (sheets w sh) + 1) 1 1),
            setSheet sh ((sheets w sh)\<lparr>grid := take (getLastRow (sheets w sh)) (grid (sheets w sh)) @
                 blankRow (sheets w sh) # drop (getLastRow (sheets w sh)) (grid (sheets w sh))\<rparr>)
              (logEvent (if getLastRow (sheets w sh) = length (grid (sheets w sh))
                         then EvInsertRowAfter sh (getLastRow (sheets w sh))
                         else EvInsertRowBefore sh (getLastRow (sheets w sh) + 1)) w))"
proof -
  from assms have pos: "Suc 0 \<le> length (grid (sheets w sh))"
    by (cases "grid (sheets w sh)") simp_all
  show ?thesis
  proof (cases "getLastRow (sheets w sh) = length (grid (sheets w sh))")
    case True
    with pos show ?thesis
      by (simp add: getFirstEmptyRow_def reserveRow_def iobind_def ioget_def ioreturn_def
            insertRowAfter_def getMaxRows_def logEvent_def setSheet_def getRange_def Let_def
            nat_add_distrib)
  next
    case False
    with getLastRow_le[of "sheets w sh"]
    have "getLastRow (sheets w sh) < length (grid (sheets w sh))" by simp
    with pos show ?thesis
      by (simp add: getFirstEmptyRow_def reserveRow_def iobind_def ioget_def ioreturn_def
            insertRowBefore_def getMaxRows_def logEvent_def setSheet_def getRange_def Let_def
            nat_add_distrib)
  qed
qed

lemma copy_step:
  assumes ne: "src \<noteq> dst"
    and r: "1 \<le> r" "r \<le> length (grid (sheets w src))" "1 \<le> n" "n \<le> ncols (sheets w src)"
    and d: "grid (sheets w dst) \<noteq> []" "n \<le> ncols (sheets w dst)"
  shows "\<exists>w'. copyToFirstEmptyRow h (getRange src r 1 n) dst False None False True w =
           (Inr (getRange dst (getLastRow (sheets w dst) + 1) 1 n), w') \<and>
         sheets w' src = sheets w src \<and>
         sheets w' dst = (sheets w dst)\<lparr>grid :=
            take (getLastRow (sheets w dst)) (grid (sheets w dst)) @
            movedRow (sheets w dst) n (grid (sheets w src) ! (r - 1)) #
            drop (getLastRow (sheets w dst)) (grid (sheets w dst))\<rparr> \<and>
         lockBusy w' = lockBusy w \<and> lockHeld w' = lockHeld w"
proof -
  let ?L = "getLastRow (sheets w dst)"
  note g = append_path_world[OF d(1), of "Suc 0"]
  note L = getLastRow_le[of "sheets w dst"]
  have upd: "(take ?L (grid (sheets w dst)) @ blankRow (sheets w dst) #
                drop ?L (grid (sheets w dst)))[?L := x] =
             take ?L (grid (sheets w dst)) @ x # drop ?L (grid (sheets w dst))" for x
    using L by (simp add: list_update_append)
  have nth: "(take ?L (grid (sheets w dst)) @ blankRow (sheets w dst) #
                drop ?L (grid (sheets w dst))) ! ?L = blankRow (sheets w dst)"
    using L by (simp add: nth_append)
  show ?thesis
    using ne r d L
    by (simp add: copyToFirstEmptyRow_def iobind_def ioreturn_def g copyTo_def getRange_def
          validRange_def rangeCells_def writeRow_def logEvent_def setSheet_def Let_def
          movedRow_def upd nth)
qed

lemma move_step:
  assumes ne: "src \<noteq> dst" and free: "\<not> lockBusy w"
    and r: "1 \<le> r" "r \<le> length (grid (sheets w src))" "1 \<le> n" "n \<le> ncols (sheets w src)"
    and d: "grid (sheets w dst) \<noteq> []" "n \<le> ncols (sheets w dst)"
    and u: "frozen (sheets w src) < r" "frozen (sheets w src) + 2 \<le> length (grid (sheets w src))"
  shows "\<exists>w'. moveToFirstEmptyRow h (getRange src r 1 n) dst False None True True w =
           (Inr (getRange dst (getLastRow (sheets w dst) + 1) 1 n), w') \<and>
         sheets w' src = (sheets w src)\<lparr>grid := delRow (grid (sheets w src)) r\<rparr> \<and>
         sheets w' dst = (sheets w dst)\<lparr>grid :=
            take (getLastRow (sheets w dst)) (grid (sheets w dst)) @
            movedRow (sheets w dst) n (grid (sheets w src) ! (r - 1)) #
            drop (getLastRow (sheets w dst)) (grid (sheets w dst))\<rparr> \<and>
         \<not> lockBusy w'"
proof -
  let ?w1 = "(logEvent EvWaitLock w)\<lparr>lockHeld := True\<rparr>"
  have s1: "sheets ?w1 = sheets w" "lockBusy ?w1 = lockBusy w" by (simp_all add: logEvent_def)
  from copy_step[OF ne, of r ?w1 n h] r d s1 obtain w2 where
    c: "copyToFirstEmptyRow h (getRange src r 1 n) dst False None False True ?w1 =
           (Inr (getRange dst (getLastRow (sheets w dst) + 1) 1 n), w2)"
    and s2: "sheets w2 src = sheets w src"
       "sheets w2 dst = (sheets w dst)\<lparr>grid :=
            take (getLastRow (sheets w dst)) (grid (sheets w dst)) @
            movedRow (sheets w dst) n (grid (sheets w src) ! (r - 1)) #
            drop (getLastRow (sheets w dst)) (grid (sheets w dst))\<rparr>"
       "lockBusy w2 = lockBusy w"
    by auto
  have "moveToFirstEmptyRow h (getRange src r 1 n) dst False None True True w =
          (case deleteRow src r w2 of
             (Inl e, w3) \<Rightarrow> (Inl e, w3)
           | (Inr u, w3) \<Rightarrow>
               (Inr (getRange dst (getLastRow (sheets w dst) + 1) 1 n), snd (releaseLock w3)))"
    by (subst move_steps, simp only: if_True waitLock_free[OF free] prod.case sum.case c)
       (simp add: getRange_def)
  then show ?thesis
    using ne free r u s2
    by (simp add: deleteRow_def lastUnfrozenRow_def withoutRow_def logEvent_def setSheet_def
          releaseLock_def delRow_def Let_def)
qed


lemma pasteValues_content:
  "length vs \<le> length cs \<Longrightarrow> list_ex (\<lambda>v. v \<noteq> Str []) vs \<Longrightarrow>
     rowHasContent (pasteValues vs cs)"
  by (induction vs cs rule: pasteValues.induct)
     (auto simp: rowHasContent_def hasContent_def)

lemma movedRow_content:
  assumes "rowHasContent (take n row)" "n \<le> ncols d"
  shows "rowHasContent (movedRow d n row)"
proof -
  have "list_ex (\<lambda>v. v \<noteq> Str []) (map cval (take n row))"
    using assms(1) by (auto simp: rowHasContent_def hasContent_def list_ex_iff)
  moreover have "length (map cval (take n row)) \<le> length (blankRow d)"
    using assms(2) by (simp add: blankRow_def)
  ultimately show ?thesis unfolding movedRow_def by (intro pasteValues_content)
qed

lemma delRow_nth:
  assumes "r' < r" "r \<le> length g" "Suc 0 \<le> r'"
  shows "delRow g r ! (r' - Suc 0) = g ! (r' - Suc 0)"
proof -
  from assms have "r' - Suc 0 < r - Suc 0" "r - Suc 0 \<le> length g" by arith+
  then show ?thesis by (simp add: delRow_def nth_append)
qed

lemma delRow_length:
  "Suc 0 \<le> r \<Longrightarrow> r \<le> length g \<Longrightarrow> length (delRow g r) = length g - Suc 0"
  by (simp add: delRow_def)

lemma sweep_loop:
  assumes ne: "src \<noteq> dst"
  shows "\<not> lockBusy w \<Longrightarrow> sorted_wrt (>) rs \<Longrightarrow>
     (\<forall>r \<in> set rs. 1 \<le> r \<and> r \<le> length (grid (sheets w src)) \<and>
        rowHasContent (take n (grid (sheets w src) ! (r - 1)))) \<Longrightarrow>
     1 \<le> n \<Longrightarrow> n \<le> ncols (sheets w src) \<Longrightarrow>
     grid (sheets w dst) \<noteq> [] \<Longrightarrow> n \<le> ncols (sheets w dst) \<Longrightarrow>
     (\<forall>r \<in> set rs. frozen (sheets w src) < r) \<Longrightarrow>
     frozen (sheets w src) + length rs < length (grid (sheets w src)) \<Longrightarrow>
     \<exists>w'. ioforEach (map (\<lambda>r. getRange src r 1 n) rs)
            (\<lambda>rg. moveToFirstEmptyRow h rg dst False None True True) w = (Inr (), w') \<and>
        sheets w' src = (sheets w src)\<lparr>grid := foldl delRow (grid (sheets w src)) rs\<rparr> \<and>
        sheets w' dst = (sheets w dst)\<lparr>grid :=
            take (getLastRow (sheets w dst)) (grid (sheets w dst)) @
            map (\<lambda>r. movedRow (sheets w dst) n (grid (sheets w src) ! (r - 1))) rs @
            drop (getLastRow (sheets w dst)) (grid (sheets w dst))\<rparr> \<and>
        \<not> lockBusy w'"
proof (induction rs arbitrary: w)
  case Nil
  then show ?case by (simp add: ioreturn_def)
next
  case (Cons r rs)
  let ?s = "sheets w src" and ?d = "sheets w dst"
  let ?g = "grid ?s" and ?gd = "grid ?d"
  let ?L = "getLastRow ?d"
  let ?m = "movedRow ?d n (?g ! (r - 1))"
  have r: "1 \<le> r" "r \<le> length ?g" "rowHasContent (take n (?g ! (r - 1)))"
    using Cons.prems(3) by simp_all
  have u: "frozen ?s < r" "frozen ?s + 2 \<le> length ?g"
    using Cons.prems(8,9) by simp_all
  from move_step[OF ne Cons.prems(1) r(1,2) Cons.prems(4,5,6,7) u, of h] obtain w1 where
    m: "moveToFirstEmptyRow h (getRange src r 1 n) dst False None True True w =
          (Inr (getRange dst (?L + 1) 1 n), w1)"
    and s1: "sheets w1 src = ?s\<lparr>grid := delRow ?g r\<rparr>"
    and d1: "sheets w1 dst = ?d\<lparr>grid := take ?L ?gd @ ?m # drop ?L ?gd\<rparr>"
    and b1: "\<not> lockBusy w1" by blast
  have mc: "rowHasContent ?m" using r(3) Cons.prems(7) by (rule movedRow_content)
  have L1: "getLastRow (sheets w1 dst) = ?L + 1"
    using getLastRow_insert[of "[?m]" ?d] mc by (simp add: d1)
  have rest: "\<forall>r' \<in> set rs. r' < r" using Cons.prems(2) by auto
  have p3: "\<forall>r' \<in> set rs. 1 \<le> r' \<and> r' \<le> length (grid (sheets w1 src)) \<and>
              rowHasContent (take n (grid (sheets w1 src) ! (r' - 1)))"
  proof
    fix r' assume a: "r' \<in> set rs"
    with rest have lt: "r' < r" by simp
    from a Cons.prems(3) have o: "1 \<le> r'" "rowHasContent (take n (?g ! (r' - 1)))" by simp_all
    show "1 \<le> r' \<and> r' \<le> length (grid (sheets w1 src)) \<and>
              rowHasContent (take n (grid (sheets w1 src) ! (r' - 1)))"
      using lt o r(1,2) by (simp add: s1 delRow_nth delRow_length)
  qed
  have p8: "\<forall>r' \<in> set rs. frozen (sheets w1 src) < r'"
    using Cons.prems(8) by (simp add: s1)
  have p9: "frozen (sheets w1 src) + length rs < length (grid (sheets w1 src))"
    using Cons.prems(9) r(1,2) by (simp add: s1 delRow_length)
  from Cons.IH[OF b1 _ p3 Cons.prems(4) _ _ _ p8 p9] Cons.prems(2,5,6,7) obtain w' where
    f: "ioforEach (map (\<lambda>r. getRange src r 1 n) rs)
            (\<lambda>rg. moveToFirstEmptyRow h rg dst False None True True) w1 = (Inr (), w')"
    and s': "sheets w' src = (sheets w1 src)\<lparr>grid := foldl delRow (grid (sheets w1 src)) rs\<rparr>"
    and d': "sheets w' dst = (sheets w1 dst)\<lparr>grid :=
            take (getLastRow (sheets w1 dst)) (grid (sheets w1 dst)) @
            map (\<lambda>r. movedRow (sheets w1 dst) n (grid (sheets w1 src) ! (r - 1))) rs @
            drop (getLastRow (sheets w1 dst)) (grid (sheets w1 dst))\<rparr>"
    and b': "\<not> lockBusy w'"
    by (auto simp: s1 d1)
  have mv: "map (\<lambda>r. movedRow (sheets w1 dst) n (grid (sheets w1 src) ! (r - 1))) rs =
            map (\<lambda>r. movedRow ?d n (?g ! (r - 1))) rs"
  proof (rule map_cong[OF refl])
    fix r' assume a: "r' \<in> set rs"
    with rest have lt: "r' < r" by simp
    from a Cons.prems(3) have "1 \<le> r'" by simp
    with lt r(2) show "movedRow (sheets w1 dst) n (grid (sheets w1 src) ! (r' - 1)) =
            movedRow ?d n (?g ! (r' - 1))"
      by (simp add: s1 d1 delRow_nth movedRow_def blankRow_def)
  qed
  have Ld: "?L \<le> length ?gd" by (rule getLastRow_le)
  have "ioforEach (map (\<lambda>r. getRange src r 1 n) (r # rs))
            (\<lambda>rg. moveToFirstEmptyRow h rg dst False None True True) w = (Inr (), w')"
    by (simp add: iobind_def m[unfolded One_nat_def] f[unfolded One_nat_def])
  moreover have "sheets w' src = ?s\<lparr>grid := foldl delRow ?g (r # rs)\<rparr>"
    by (simp add: s' s1)
  moreover have "sheets w' dst = ?d\<lparr>grid := take ?L ?gd @
            map (\<lambda>r. movedRow ?d n (?g ! (r - 1))) (r # rs) @ drop ?L ?gd\<rparr>"
  proof -
    have "sheets w' dst = (sheets w1 dst)\<lparr>grid :=
            take (?L + 1) (grid (sheets w1 dst)) @
            map (\<lambda>r. movedRow ?d n (?g ! (r - 1))) rs @
            drop (?L + 1) (grid (sheets w1 dst))\<rparr>"
      unfolding d' mv L1 ..
    then show ?thesis using Ld by (simp add: d1)
  qed
  ultimately show ?case using b' by blast
qed

lemma row_after_last: "c \<in> set (drop (rowLastColumn r) r) \<Longrightarrow> \<not> hasContent c"
proof -
  let ?B = "\<lambda>c. \<not> hasContent c"
  have "rev r = takeWhile ?B (rev r) @ dropWhile ?B (rev r)" by simp
  then have "r = rev (dropWhile ?B (rev r)) @ rev (takeWhile ?B (rev r))"
    by (metis rev_append rev_rev_ident)
  then have "drop (rowLastColumn r) r = rev (takeWhile ?B (rev r))"
    by (metis append_eq_conv_conj length_rev rowLastColumn_def)
  then show "c \<in> set (drop (rowLastColumn r) r) \<Longrightarrow> \<not> hasContent c"
    by (auto dest: set_takeWhileD)
qed

lemma rowHasContent_take:
  assumes "rowLastColumn r \<le> n"
  shows "rowHasContent (take n r) = rowHasContent r"
proof -
  have "set (drop n r) \<subseteq> set (drop (rowLastColumn r) r)"
    using assms by (rule set_drop_subset_set_drop)
  then have "\<forall>c \<in> set (drop n r). \<not> hasContent c" using row_after_last by blast
  moreover have "rowHasContent r = (rowHasContent (take n r) \<or> rowHasContent (drop n r))"
    unfolding rowHasContent_def list_ex_append[symmetric] by simp
  ultimately show ?thesis by (auto simp: rowHasContent_def list_ex_iff)
qed

lemma foldr_max_ge: "r \<in> set g \<Longrightarrow> f r \<le> foldr (\<lambda>r m. max (f r) m) g (0::nat)"
  by (induction g) auto

lemma foldr_max_le: "(\<forall>r \<in> set g. f r \<le> m) \<Longrightarrow> foldr (\<lambda>r m. max (f r) m) g (0::nat) \<le> m"
  by (induction g) auto

lemma rowLastColumn_le: "r \<in> set (grid s) \<Longrightarrow> rowLastColumn r \<le> getLastColumn s"
  unfolding getLastColumn_def by (rule foldr_max_ge)

lemma getLastColumn_le_ncols:
  assumes "wfSheet s"
  shows "getLastColumn s \<le> ncols s"
proof -
  have "\<forall>r \<in> set (grid s). rowLastColumn r \<le> ncols s"
  proof
    fix r assume "r \<in> set (grid s)"
    with assms have "length r = ncols s" by (auto simp: wfSheet_def list_all_iff)
    moreover have "rowLastColumn r \<le> length r"
      unfolding rowLastColumn_def using length_dropWhile_le[of _ "rev r"] by simp
    ultimately show "rowLastColumn r \<le> ncols s" by simp
  qed
  then show ?thesis unfolding getLastColumn_def by (rule foldr_max_le)
qed

lemma getLastColumn_pos:
  assumes "1 \<le> getLastRow s"
  shows "1 \<le> getLastColumn s"
proof -
  let ?B = "\<lambda>r. \<not> rowHasContent r"
  have ne: "dropWhile ?B (rev (grid s)) \<noteq> []"
  proof
    assume "dropWhile ?B (rev (grid s)) = []"
    then have "getLastRow s = 0" by (simp only: getLastRow_def list.size)
    with assms show False by simp
  qed
  then have "rowHasContent (hd (dropWhile ?B (rev (grid s))))"
    using hd_dropWhile[of ?B "rev (grid s)"] by simp
  moreover have "hd (dropWhile ?B (rev (grid s))) \<in> set (grid s)"
    using ne by (metis hd_in_set set_dropWhileD set_rev)
  ultimately obtain r where r: "r \<in> set (grid s)" "rowHasContent r" by blast
  then have "dropWhile (\<lambda>c. \<not> hasContent c) (rev r) \<noteq> []"
    by (auto simp: rowHasContent_def list_ex_iff)
  then have "1 \<le> rowLastColumn r"
    unfolding rowLastColumn_def by (cases "dropWhile (\<lambda>c. \<not> hasContent c) (rev r)") simp_all
  with rowLastColumn_le[OF r(1)] show ?thesis by simp
qed

lemma getValues_row:
  assumes "1 \<le> r" "r \<le> length (grid (sheets w sh))" "1 \<le> n" "n \<le> ncols (sheets w sh)"
  shows "getValues (getRange sh r 1 n) w =
           (Inr (map cval (take n (grid (sheets w sh) ! (r - 1)))),
            logEvent (EvGetValues (getRange sh r 1 n)) w)"
  using assms
  by (simp add: getValues_def getRange_def validRange_def rangeCells_def logEvent_def Let_def)

lemma values_content:
  "list_ex (\<lambda>v. v \<noteq> Str []) (map cval cs) = rowHasContent cs"
  by (simp add: rowHasContent_def hasContent_def list_ex_iff)

lemma getRangesInUse_loop_result:
  "(\<forall>i \<in> set is. i + 1 + f \<le> length (grid (sheets w sh))) \<Longrightarrow>
   1 \<le> n \<Longrightarrow> n \<le> ncols (sheets w sh) \<Longrightarrow>
   \<exists>w'. getRangesInUse_loop sh f n is acc w =
          (Inr (acc @ map (\<lambda>r. getRange sh r 1 n)
                  (filter (\<lambda>r. rowHasContent (take n (grid (sheets w sh) ! (r - 1))))
                     (map (\<lambda>i. i + 1 + f) is))), w') \<and>
        sheets w' = sheets w \<and> lockBusy w' = lockBusy w"
proof (induction "is" arbitrary: acc w)
  case Nil
  then show ?case by (simp add: ioreturn_def)
next
  case (Cons i "is")
  let ?rg = "getRange sh (Suc (i + f)) (Suc 0) n"
  let ?w1 = "logEvent (EvGetValues ?rg) w"
  have gv: "getValues ?rg w = (Inr (map cval (take n (grid (sheets w sh) ! (i + f)))), ?w1)"
    using getValues_row[of "Suc (i + f)" w sh n] Cons.prems by simp
  have s1: "sheets ?w1 = sheets w" "lockBusy ?w1 = lockBusy w" by (simp_all add: logEvent_def)
  let ?acc = "if rowHasContent (take n (grid (sheets w sh) ! (i + f)))
              then acc @ [?rg] else acc"
  from Cons.IH[of ?w1 ?acc] Cons.prems s1 obtain w' where
    ih: "getRangesInUse_loop sh f n is ?acc ?w1 =
          (Inr (?acc @ map (\<lambda>r. getRange sh r 1 n)
                  (filter (\<lambda>r. rowHasContent (take n (grid (sheets w sh) ! (r - 1))))
                     (map (\<lambda>i. i + 1 + f) is))), w')"
    and s': "sheets w' = sheets w" "lockBusy w' = lockBusy w"
    by auto
  have "getRangesInUse_loop sh f n (i # is) acc w = getRangesInUse_loop sh f n is ?acc ?w1"
    by (simp add: iobind_def gv values_content Let_def)
  with ih s' show ?case by auto
qed


lemma usedRows_props:
  assumes "r \<in> set (usedRows s)"
  shows "frozen s + 1 \<le> r" "r \<le> getLastRow s" "rowHasContent (rowAt s r)"
    "rowHasContent (take (getLastColumn s) (grid s ! (r - 1)))"
proof -
  from assms show 1: "frozen s + 1 \<le> r" and 2: "r \<le> getLastRow s"
    and 3: "rowHasContent (rowAt s r)"
    by (simp_all add: usedRows_def del: upt_Suc)
  from 1 2 getLastRow_le[of s] have "grid s ! (r - 1) \<in> set (grid s)" by simp
  from rowHasContent_take[OF rowLastColumn_le[OF this]] 3
  show "rowHasContent (take (getLastColumn s) (grid s ! (r - 1)))" by (simp add: rowAt_def)
qed

lemma getRangesInUse_result:
  assumes "wfSheet (sheets w sh)"
  shows "\<exists>w'. getRangesInUse sh True w =
           (Inr (map (\<lambda>r. getRange sh r 1 (getLastColumn (sheets w sh))) (usedRows (sheets w sh))),
            w') \<and> sheets w' = sheets w \<and> lockBusy w' = lockBusy w"
proof (cases "frozen (sheets w sh) < getLastRow (sheets w sh)")
  case False
  then have "usedRows (sheets w sh) = []" by (simp add: usedRows_def del: upt_Suc)
  with False show ?thesis
    by (simp add: getRangesInUse_def iobind_def ioget_def ioreturn_def getFrozenRows_def)
next
  case True
  let ?s = "sheets w sh"
  let ?f = "frozen ?s" and ?L = "getLastRow ?s" and ?n = "getLastColumn ?s"
  from True have L: "1 \<le> ?L" by simp
  have n: "1 \<le> ?n" "?n \<le> ncols ?s"
    using getLastColumn_pos[OF L] getLastColumn_le_ncols[OF assms] by simp_all
  have rows: "\<forall>i \<in> set [0..<?L - ?f]. i + 1 + ?f \<le> length (grid ?s)"
    using getLastRow_le[of ?s] by auto
  from getRangesInUse_loop_result[OF rows n, of "[]"] obtain w' where
    l: "getRangesInUse_loop sh ?f ?n [0..<?L - ?f] [] w =
          (Inr (map (\<lambda>r. getRange sh r 1 ?n)
                  (filter (\<lambda>r. rowHasContent (take ?n (grid ?s ! (r - 1))))
                     (map (\<lambda>i. i + 1 + ?f) [0..<?L - ?f]))), w')"
    and s': "sheets w' = sheets w" "lockBusy w' = lockBusy w" by auto
  have "map (\<lambda>i. i + 1 + ?f) [0..<?L - ?f] = [?f + 1..<Suc ?L]"
    using True map_add_upt[of "?f + 1" "?L - ?f"] by (simp add: add.commute del: upt_Suc)
  moreover have "filter (\<lambda>r. rowHasContent (take ?n (grid ?s ! (r - 1)))) [?f + 1..<Suc ?L] =
                 usedRows ?s"
    unfolding usedRows_def
  proof (rule filter_cong[OF refl])
    fix r assume "r \<in> set [?f + 1..<Suc ?L]"
    then have "r - 1 < length (grid ?s)" using getLastRow_le[of ?s] by (auto simp del: upt_Suc)
    then have "grid ?s ! (r - 1) \<in> set (grid ?s)" by (rule nth_mem)
    from rowHasContent_take[OF rowLastColumn_le[OF this]]
    show "rowHasContent (take ?n (grid ?s ! (r - 1))) = rowHasContent (rowAt ?s r)"
      by (simp add: rowAt_def)
  qed
  ultimately have "getRangesInUse_loop sh ?f ?n [0..<?L - ?f] [] w =
          (Inr (map (\<lambda>r. getRange sh r 1 ?n) (usedRows ?s)), w')"
    using l by simp
  moreover have "nat (int ?L - int ?f) = ?L - ?f" by simp
  ultimately show ?thesis
    using s' by (simp add: getRangesInUse_def iobind_def ioget_def getFrozenRows_def)
qed

lemma foldl_delRow_usedRows:
  "foldl delRow (grid s) (rev (usedRows s)) =
     take (frozen s) (grid s) @ filter (\<lambda>r. \<not> rowHasContent r) (drop (frozen s) (grid s))"
proof (cases "frozen s < getLastRow s")
  case False
  then have u: "usedRows s = []" by (simp add: usedRows_def del: upt_Suc)
  from False have "set (drop (frozen s) (grid s)) \<subseteq> set (drop (getLastRow s) (grid s))"
    by (intro set_drop_subset_set_drop) simp
  then have "filter (\<lambda>r. \<not> rowHasContent r) (drop (frozen s) (grid s)) = drop (frozen s) (grid s)"
    using rows_after_last_blank[of _ s] by (intro filter_True) blast
  with u show ?thesis by simp
next
  case True
  let ?f = "frozen s" and ?L = "getLastRow s" and ?g = "grid s"
  let ?p = "take ?f ?g" and ?b = "take (?L - ?f) (drop ?f ?g)" and ?t = "drop ?L ?g"
  note L = getLastRow_le[of s]
  have lp: "length ?p = ?f" and lb: "length ?b = ?L - ?f" using True L by simp_all
  have "drop ?f ?g = ?b @ drop (?L - ?f) (drop ?f ?g)" by (rule append_take_drop_id[symmetric])
  also have "drop (?L - ?f) (drop ?f ?g) = ?t" using True by simp
  finally have dg: "drop ?f ?g = ?b @ ?t" .
  then have g: "?g = ?p @ ?b @ ?t" by (metis append_take_drop_id)
  have "[?f + 1..<Suc ?L] = map (\<lambda>i. length ?p + i + 1) [0..<length ?b]"
    using True map_add_upt[of "?f + 1" "?L - ?f"] lp lb
    by (simp add: add.commute add.left_commute del: upt_Suc)
  then have "usedRows s = map (\<lambda>i. length ?p + i + 1)
               (filter (\<lambda>i. rowHasContent (rowAt s (length ?p + i + 1))) [0..<length ?b])"
    unfolding usedRows_def by (simp add: filter_map comp_def del: upt_Suc)
  also have "filter (\<lambda>i. rowHasContent (rowAt s (length ?p + i + 1))) [0..<length ?b] =
             filter (\<lambda>i. rowHasContent (?b ! i)) [0..<length ?b]"
  proof (rule filter_cong[OF refl])
    fix i assume "i \<in> set [0..<length ?b]"
    then have "i < ?L - ?f" using lb by simp
    then show "rowHasContent (rowAt s (length ?p + i + 1)) = rowHasContent (?b ! i)"
      using L lp by (simp add: rowAt_def)
  qed
  finally have u: "usedRows s = map (\<lambda>i. length ?p + i + 1)
               (filter (\<lambda>i. rowHasContent (?b ! i)) [0..<length ?b])" .
  have "foldl delRow (?p @ ?b @ ?t) (rev (usedRows s)) =
          ?p @ filter (\<lambda>r. \<not> rowHasContent r) ?b @ ?t"
    unfolding u by (rule foldl_delRow_used)
  moreover have ft: "filter (\<lambda>r. \<not> rowHasContent r) ?t = ?t"
    using rows_after_last_blank[of _ s] by (intro filter_True) blast
  moreover have "filter (\<lambda>r. \<not> rowHasContent r) (drop ?f ?g) =
                 filter (\<lambda>r. \<not> rowHasContent r) ?b @ ?t"
    by (subst dg) (simp only: filter_append ft)
  ultimately show ?thesis using g by simp
qed


lemma filter_positions:
  "length (filter (\<lambda>r. P (g ! (r - 1))) [a + 1..<Suc b]) \<le> length (filter P (drop a g))"
  if "b \<le> length g"
proof (cases "a \<le> b")
  case False
  then show ?thesis by simp
next
  case True
  have m: "map (\<lambda>r. g ! (r - 1)) [a + 1..<Suc b] = take (b - a) (drop a g)"
    using that True by (intro nth_equalityI) (simp_all del: upt_Suc)
  have "length (filter (\<lambda>r. P (g ! (r - 1))) [a + 1..<Suc b]) =
        length (filter P (map (\<lambda>r. g ! (r - 1)) [a + 1..<Suc b]))"
    by (simp add: filter_map comp_def del: upt_Suc)
  also have "\<dots> = length (filter P (take (b - a) (drop a g)))" by (simp only: m)
  also have "\<dots> \<le> length (filter P (take (b - a) (drop a g))) +
                  length (filter P (drop (b - a) (drop a g)))" by simp
  also have "\<dots> = length (filter P (take (b - a) (drop a g) @ drop (b - a) (drop a g)))"
    by (simp only: filter_append length_append)
  also have "\<dots> = length (filter P (drop a g))" by (simp only: append_take_drop_id)
  finally show ?thesis .
qed

text \<open>With a blank row below the frozen rows, the rows to move are not all of them.\<close>

lemma usedRows_leave_a_row:
  assumes "list_ex (\<lambda>r. \<not> rowHasContent r) (drop (frozen s) (grid s))"
  shows "frozen s + length (usedRows s) < length (grid s)"
proof -
  let ?u = "drop (frozen s) (grid s)"
  have "length (usedRows s) \<le> length (filter rowHasContent ?u)"
    unfolding usedRows_def rowAt_def by (rule filter_positions) (rule getLastRow_le)
  moreover have "length (filter rowHasContent ?u) + length (filter (\<lambda>r. \<not> rowHasContent r) ?u) =
                 length ?u"
    by (rule sum_length_filter_compl)
  moreover have "0 < length (filter (\<lambda>r. \<not> rowHasContent r) ?u)"
    using assms by (auto simp: list_ex_iff filter_empty_conv)
  moreover have "length ?u = length (grid s) - frozen s" by simp
  ultimately show ?thesis by arith
qed

text \<open>
  C9 (as stated, fails): the service refuses to delete the last row of a sheet that is not
  frozen, and the sweep has no provision for it. On a source sheet with a header and two
  rows of data, and nothing else, the sweep moves the last row, copies the first one and
  then throws at its deletion: the row is left in the source and is in the destination as
  well, and the lock is still held.
\<close>

theorem sweep_throws_on_a_full_source:
  "fst (sweep plainHash ''Form'' ''Responses'' True
          (mkWorld (textSheet [[''name'', ''n''], [''a'', ''1''], [''b'', ''2'']] 2 1)
                   (textSheet [[''name'', ''n''], [[], []]] 2 1))) = Inl DeleteRefused \<and>
   grid (sheets (snd (sweep plainHash ''Form'' ''Responses'' True
          (mkWorld (textSheet [[''name'', ''n''], [''a'', ''1''], [''b'', ''2'']] 2 1)
                   (textSheet [[''name'', ''n''], [[], []]] 2 1)))) ''Form'') =
     grid (textSheet [[''name'', ''n''], [''a'', ''1'']] 2 1) \<and>
   grid (sheets (snd (sweep plainHash ''Form'' ''Responses'' True
          (mkWorld (textSheet [[''name'', ''n''], [''a'', ''1''], [''b'', ''2'']] 2 1)
                   (textSheet [[''name'', ''n''], [[], []]] 2 1)))) ''Responses'') =
     grid (textSheet [[''name'', ''n''], [''b'', ''2''], [''a'', ''1''], [[], []]] 2 1) \<and>
   lockHeld (snd (sweep plainHash ''Form'' ''Responses'' True
          (mkWorld (textSheet [[''name'', ''n''], [''a'', ''1''], [''b'', ''2'']] 2 1)
                   (textSheet [[''name'', ''n''], [[], []]] 2 1))))"
  by (simp add: sweep_def getRangesInUse_def lib_defs example_defs host_defs numeral_2_eq_2)

text \<open>
  C9 (amended): a sweep with \<^verbatim>\<open>deleteFromSource = true\<close> from a sheet that has a blank
  row below its frozen rows to another sheet, with the lock free and the destination at
  least as wide as the used columns of the source, returns normally. The ranges are
  computed first and moved from the last to the first, so each deletion only shifts rows
  already moved. Afterwards the source holds its frozen rows and, below them, only the
  rows that were blank; the destination holds, after its last data row, the values of
  every non-empty source row (the last one first), and its other rows as before.
\<close>

theorem sweep_moves_every_used_row:
  assumes "src \<noteq> dst" and "\<not> lockBusy w" and "wfSheet (sheets w src)"
    and "grid (sheets w dst) \<noteq> []"
    and "getLastColumn (sheets w src) \<le> ncols (sheets w dst)"
    and "list_ex (\<lambda>r. \<not> rowHasContent r) (drop (frozen (sheets w src)) (grid (sheets w src)))"
  shows "fst (sweep h src dst True w) = Inr () \<and>
         grid (sheets (snd (sweep h src dst True w)) src) =
           take (frozen (sheets w src)) (grid (sheets w src)) @
           filter (\<lambda>r. \<not> rowHasContent r) (drop (frozen (sheets w src)) (grid (sheets w src))) \<and>
         grid (sheets (snd (sweep h src dst True w)) dst) =
           take (getLastRow (sheets w dst)) (grid (sheets w dst)) @
           map (\<lambda>r. movedRow (sheets w dst) (getLastColumn (sheets w src)) (rowAt (sheets w src) r))
             (rev (usedRows (sheets w src))) @
           drop (getLastRow (sheets w dst)) (grid (sheets w dst))"
proof -
  let ?s = "sheets w src" and ?d = "sheets w dst"
  let ?n = "getLastColumn ?s"
  let ?rs = "rev (usedRows ?s)"
  from getRangesInUse_result[OF assms(3)] obtain wA where
    a: "getRangesInUse src True w = (Inr (map (\<lambda>r. getRange src r 1 ?n) (usedRows ?s)), wA)"
    and sA: "sheets wA = sheets w" "lockBusy wA = lockBusy w" by blast
  have sw: "sweep h src dst True w =
          ioforEach (map (\<lambda>r. getRange src r 1 ?n) ?rs)
            (\<lambda>rg. moveToFirstEmptyRow h rg dst False None True True) wA"
    by (simp add: sweep_def iobind_def a rev_map)
  have "\<exists>w'. ioforEach (map (\<lambda>r. getRange src r 1 ?n) ?rs)
            (\<lambda>rg. moveToFirstEmptyRow h rg dst False None True True) wA = (Inr (), w') \<and>
        sheets w' src = ?s\<lparr>grid := foldl delRow (grid ?s) ?rs\<rparr> \<and>
        sheets w' dst = ?d\<lparr>grid :=
            take (getLastRow ?d) (grid ?d) @
            map (\<lambda>r. movedRow ?d ?n (grid ?s ! (r - 1))) ?rs @
            drop (getLastRow ?d) (grid ?d)\<rparr> \<and>
        \<not> lockBusy w'"
  proof (cases "usedRows ?s = []")
    case True
    then show ?thesis using assms(2) sA by (simp add: ioreturn_def)
  next
    case False
    then obtain r where "r \<in> set (usedRows ?s)" by (cases "usedRows ?s") auto
    from usedRows_props(1,2)[OF this] have "1 \<le> getLastRow ?s" by simp
    from getLastColumn_pos[OF this] have n1: "1 \<le> ?n" .
    have n2: "?n \<le> ncols ?s" by (rule getLastColumn_le_ncols[OF assms(3)])
    have "sorted_wrt (<) (usedRows ?s)"
      unfolding usedRows_def by (intro sorted_wrt_filter) (simp del: upt_Suc)
    then have so: "sorted_wrt (>) ?rs" by (simp add: sorted_wrt_rev)
    have el: "\<forall>r \<in> set ?rs. 1 \<le> r \<and> r \<le> length (grid (sheets wA src)) \<and>
                rowHasContent (take ?n (grid (sheets wA src) ! (r - 1)))"
    proof
      fix r assume "r \<in> set ?rs"
      then have "r \<in> set (usedRows ?s)" by simp
      from usedRows_props[OF this] getLastRow_le[of ?s]
      show "1 \<le> r \<and> r \<le> length (grid (sheets wA src)) \<and>
                rowHasContent (take ?n (grid (sheets wA src) ! (r - 1)))"
        by (simp add: sA)
    qed
    have fr: "\<forall>r \<in> set ?rs. frozen (sheets wA src) < r"
    proof
      fix r assume "r \<in> set ?rs"
      then have "r \<in> set (usedRows ?s)" by simp
      from usedRows_props(1)[OF this] show "frozen (sheets wA src) < r" by (simp add: sA)
    qed
    have lf: "frozen (sheets wA src) + length ?rs < length (grid (sheets wA src))"
      using usedRows_leave_a_row[OF assms(6)] by (simp add: sA)
    from sweep_loop[OF assms(1), of wA ?rs ?n h] so el n1 n2 assms(2,4,5) fr lf sA
    show ?thesis by simp
  qed
  then obtain w' where
    f: "ioforEach (map (\<lambda>r. getRange src r 1 ?n) ?rs)
            (\<lambda>rg. moveToFirstEmptyRow h rg dst False None True True) wA = (Inr (), w')"
    and s': "sheets w' src = ?s\<lparr>grid := foldl delRow (grid ?s) ?rs\<rparr>"
    and d': "sheets w' dst = ?d\<lparr>grid :=
            take (getLastRow ?d) (grid ?d) @
            map (\<lambda>r. movedRow ?d ?n (grid ?s ! (r - 1))) ?rs @
            drop (getLastRow ?d) (grid ?d)\<rparr>" by blast
  show ?thesis
    unfolding sw f by (simp add: s' d' foldl_delRow_usedRows rowAt_def)
qed

theorem sweep_moves_every_used_row_witness:
  "fst (sweep plainHash ''Form'' ''Responses'' True
          (mkWorld (textSheet [[''name'', ''n''], [''a'', ''1''], [[], []], [''b'', ''2''],
                               [''c'', ''3'']] 2 1)
                   (textSheet [[''name'', ''n''], [[], []]] 2 1))) = Inr () \<and>
   grid (sheets (snd (sweep plainHash ''Form'' ''Responses'' True
          (mkWorld (textSheet [[''name'', ''n''], [''a'', ''1''], [[], []], [''b'', ''2''],
                               [''c'', ''3'']] 2 1)
                   (textSheet [[''name'', ''n''], [[], []]] 2 1)))) ''Form'') =
     grid (textSheet [[''name'', ''n''], [[], []]] 2 1) \<and>
   grid (sheets (snd (sweep plainHash ''Form'' ''Responses'' True
          (mkWorld (textSheet [[''name'', ''n''], [''a'', ''1''], [[], []], [''b'', ''2''],
                               [''c'', ''3'']] 2 1)
                   (textSheet [[''name'', ''n''], [[], []]] 2 1)))) ''Responses'') =
     grid (textSheet [[''name'', ''n''], [''c'', ''3''], [''b'', ''2''], [''a'', ''1''],
                      [[], []]] 2 1)"
  using sweep_moves_every_used_row[where src = "''Form''" and dst = "''Responses''"
          and h = plainHash
          and w = "mkWorld (textSheet [[''name'', ''n''], [''a'', ''1''], [[], []], [''b'', ''2''],
                               [''c'', ''3'']] 2 1)
                   (textSheet [[''name'', ''n''], [[], []]] 2 1)"]
  by (simp add: example_defs host_defs wfSheet_def usedRows_def movedRow_def rowAt_def
        numeral_2_eq_2)

end
